theory Spec2Isabelle
  imports Main "HOL-Library.Word" "HOL-Library.Signed_Division" "HOL-Library.Sublist"
begin

unbundle bit_operations_syntax

section \<open>The block device of fsimageplugin/filesystem.cpp\<close>

text \<open>
  The embedding follows \<^verbatim>\<open>src/fsimageplugin/filesystem.cpp\<close>. A \<^verbatim>\<open>char*\<close> is an address,
  a natural number, and the null pointer is the address 0. Block indices are \<^verbatim>\<open>int64\<close>
  values; they are modelled as unbounded integers, so the development says nothing about
  products \<^verbatim>\<open>pBlock*blocksize\<close> that leave the 64-bit range.
\<close>

type_synonym byte = "8 word"
type_synonym ptr = nat

definition NULL :: ptr where
  "NULL = 0"

definition max_idle_buffers :: nat where
  "max_idle_buffers = 64"

definition readahead_num_blocks :: nat where
  "readahead_num_blocks = 5120"

definition readahead_low_level_blocks :: nat where
  "readahead_low_level_blocks = readahead_num_blocks div 2"

text \<open>
  The device handle \<^verbatim>\<open>IFile *dev\<close> is declared in \<^verbatim>\<open>Interface/File.h\<close>, which is not among
  the sources, so the handle is a parameter of the model: \<open>data\<close> are the bytes on the
  device, \<open>pos\<close> the file position, \<open>seekable\<close> says which positions \<^verbatim>\<open>Seek\<close> accepts, and
  \<open>frags\<close> scripts the coming \<^verbatim>\<open>Read\<close> calls: the head is the largest number of bytes the
  next call delivers, and a device whose script has run out delivers nothing. \<open>nreads\<close>
  counts the \<^verbatim>\<open>Read\<close> calls made so far.
\<close>

record device =
  data :: "byte list"
  pos :: nat
  seekable :: "int \<Rightarrow> bool"
  frags :: "nat list"
  nreads :: nat

text \<open>
  The fields of \<^verbatim>\<open>Filesystem\<close>. \<open>bitmap\<close>, \<open>blocksize\<close> and \<open>dev_size\<close> are what the virtual
  \<^verbatim>\<open>getBitmap()\<close>, \<^verbatim>\<open>getBlocksize()\<close> and \<^verbatim>\<open>getSize()\<close> return. \<open>readahead_thread\<close> says
  whether \<^verbatim>\<open>readahead_thread.get()\<close> is non-null. \<open>buffers\<close> is the vector of idle buffers.
  \<open>mem\<close> holds the contents of every buffer by address and \<open>next_addr\<close> is the address
  the next \<^verbatim>\<open>new char[]\<close> returns; \<open>freed\<close> lists the addresses given to \<^verbatim>\<open>delete[]\<close> and
  \<open>slept_ms\<close> sums the arguments of \<^verbatim>\<open>Server->wait\<close>.
\<close>

record fs =
  bitmap :: "byte list"
  blocksize :: int
  dev_size :: int
  readahead_thread :: bool
  has_error :: bool
  buffers :: "ptr list"
  dev :: device
  mem :: "ptr \<Rightarrow> byte list"
  next_addr :: ptr
  freed :: "ptr list"
  slept_ms :: nat

subsection \<open>The presence test\<close>

text \<open>
  Lines 290-298 (and again 305-313). C++ division and remainder truncate towards zero
  (\<open>sdiv\<close>, \<open>smod\<close>), and the conversion to \<^verbatim>\<open>size_t\<close> reduces modulo \<open>2 ^ 64\<close>. The code
  indexes the bitmap without any check; a read outside the array and a shift by 32 or more
  have no defined result in C++, and the model returns them as faults.
\<close>

datatype fault = OutOfBoundsRead nat | ShiftTooWide nat | VectorIndex nat

definition to_size_t :: "int \<Rightarrow> nat" where
  "to_size_t x = nat (x mod 2 ^ 64)"

definition bit_test :: "byte list \<Rightarrow> int \<Rightarrow> fault + bool" where
  "bit_test bm pBlock =
     (let bitmap_byte = to_size_t (pBlock sdiv 8);
          bitmap_bit = to_size_t (pBlock smod 8)
      in if length bm \<le> bitmap_byte then Inl (OutOfBoundsRead bitmap_byte)
         else if 32 \<le> bitmap_bit then Inl (ShiftTooWide bitmap_bit)
         else Inr (0 < (uint (bm ! bitmap_byte) AND push_bit bitmap_bit (1::int))))"

definition hasBlock :: "fs \<Rightarrow> int \<Rightarrow> fault + bool" where
  "hasBlock s pBlock = bit_test (bitmap s) pBlock"

subsection \<open>The buffer pool\<close>

text \<open>
  Lines 420-449. A fresh buffer has \<open>blocksize\<close> bytes; C++ leaves them indeterminate and
  the model fills them with zeros.
\<close>

definition new_buffer :: "fs \<Rightarrow> ptr \<times> fs" where
  "new_buffer s =
     (next_addr s,
      s\<lparr>next_addr := next_addr s + 1,
        mem := (mem s)(next_addr s := replicate (nat (blocksize s)) 0)\<rparr>)"

definition getBuffer :: "fs \<Rightarrow> ptr \<times> fs" where
  "getBuffer s =
     (if buffers s \<noteq> []
      then (buffers s ! (length (buffers s) - 1), s\<lparr>buffers := butlast (buffers s)\<rparr>)
      else new_buffer s)"

definition releaseBuffer :: "ptr \<Rightarrow> fs \<Rightarrow> fs" where
  "releaseBuffer buf s =
     (if length (buffers s) < max_idle_buffers
      then s\<lparr>buffers := buffers s @ [buf]\<rparr>
      else s\<lparr>freed := freed s @ [buf]\<rparr>)"

datatype pool_op = Acquire | Release ptr

fun pool_step :: "fs \<Rightarrow> pool_op \<Rightarrow> fs" where
  "pool_step s Acquire = snd (getBuffer s)"
| "pool_step s (Release buf) = releaseBuffer buf s"

definition pool_run :: "pool_op list \<Rightarrow> fs \<Rightarrow> fs" where
  "pool_run ops s = foldl pool_step s ops"

subsection \<open>Reading from the device\<close>

text \<open>
  \<^verbatim>\<open>dev->Seek(p)\<close> and \<^verbatim>\<open>dev->Read(buf+rc, n)\<close> on the scripted device. A read delivers
  at most \<open>n\<close> bytes, at most the head of the script and at most what is left on the
  device, and stores them in the buffer from offset \<open>rc\<close> on.
\<close>

definition dev_Seek :: "int \<Rightarrow> fs \<Rightarrow> bool \<times> fs" where
  "dev_Seek p s =
     (if seekable (dev s) p then (True, s\<lparr>dev := (dev s)\<lparr>pos := nat p\<rparr>\<rparr>) else (False, s))"

definition dev_Read :: "ptr \<Rightarrow> nat \<Rightarrow> nat \<Rightarrow> fs \<Rightarrow> nat \<times> fs" where
  "dev_Read buf rc n s =
     (let d = dev s;
          k = min n (min (case frags d of [] \<Rightarrow> 0 | f # _ \<Rightarrow> f) (length (data d) - pos d));
          bytes = take k (drop (pos d) (data d));
          old = mem s buf
      in (k, s\<lparr>dev := d\<lparr>pos := pos d + k, frags := tl (frags d), nreads := nreads d + 1\<rparr>,
               mem := (mem s)(buf := take rc old @ bytes @ drop (rc + k) old)\<rparr>))"

text \<open>
  Lines 367-384. \<open>tries\<close> is a C++ \<^verbatim>\<open>int\<close>; \<open>rc\<close> and \<open>bsize\<close> are \<^verbatim>\<open>_u32\<close>, and since a read
  never delivers more than it was asked for, \<open>rc\<close> stays at most \<open>bsize\<close> and cannot wrap.
  The log calls are left out.
\<close>

function readFromDev_loop :: "ptr \<Rightarrow> nat \<Rightarrow> int \<Rightarrow> nat \<Rightarrow> fs \<Rightarrow> bool \<times> fs" where
  "readFromDev_loop buf bsize tries rc s =
     (if rc < bsize
      then (let s1 = s\<lparr>slept_ms := slept_ms s + 200\<rparr>;
                (k, s2) = dev_Read buf rc (bsize - rc) s1;
                rc' = rc + k;
                tries' = tries - 1
            in if tries' < 0 then (False, s2)
               else readFromDev_loop buf bsize tries' rc' s2)
      else (True, s))"
  by pat_completeness auto
termination
  by (relation "measure (\<lambda>(buf, bsize, tries, rc, s). nat (tries + 1))") auto

declare readFromDev_loop.simps [simp del]

definition readFromDev :: "ptr \<Rightarrow> nat \<Rightarrow> fs \<Rightarrow> bool \<times> fs" where
  "readFromDev buf bsize s =
     (let tries = 20;
          (rc, s1) = dev_Read buf 0 bsize s
      in readFromDev_loop buf bsize tries rc s1)"

subsection \<open>readBlock and readBlocks\<close>

text \<open>
  Lines 303-341. A call either returns, or passes control to
  \<^verbatim>\<open>ReadaheadThread::getBlock\<close> (line 339), or runs into one of the faults above.
  \<^verbatim>\<open>(_u32)blocksize\<close> reduces modulo \<open>2 ^ 32\<close>.
\<close>

datatype 'a call = Returns 'a | Calls_getBlock int | Undefined fault

definition u32 :: "int \<Rightarrow> nat" where
  "u32 x = nat (x mod 2 ^ 32)"

definition readBlock :: "int \<Rightarrow> fs \<Rightarrow> (ptr \<times> fs) call" where
  "readBlock pBlock s =
     (case bit_test (bitmap s) pBlock of
        Inl f \<Rightarrow> Undefined f
      | Inr has_bit \<Rightarrow>
          if \<not> has_bit then Returns (NULL, s)
          else if \<not> readahead_thread s
          then (let (b, s1) = dev_Seek (pBlock * blocksize s) s
                in if \<not> b then Returns (NULL, s1\<lparr>has_error := True\<rparr>)
                   else (let (buf, s2) = getBuffer s1;
                             (ok, s3) = readFromDev buf (u32 (blocksize s)) s2
                         in if \<not> ok then Returns (NULL, s3\<lparr>has_error := True\<rparr>)
                            else Returns (buf, s3)))
          else Calls_getBlock pBlock)"

text \<open>
  Lines 343-365. \<^verbatim>\<open>memcpy(buffers[currbuf]+buffer_offset, buf, blocksize)\<close> copies within
  \<open>mem\<close>; the loop returns the local \<open>currbuf\<close> next to \<open>ret\<close>, and \<open>readBlocks\<close> drops it.
\<close>

definition memcpy :: "ptr \<Rightarrow> nat \<Rightarrow> ptr \<Rightarrow> nat \<Rightarrow> fs \<Rightarrow> fs" where
  "memcpy dst off src n s =
     s\<lparr>mem := (mem s)(dst := take off (mem s dst) @ take n (mem s src)
                           @ drop (off + n) (mem s dst))\<rparr>"

fun readBlocks_loop ::
  "int list \<Rightarrow> ptr list \<Rightarrow> nat \<Rightarrow> nat \<Rightarrow> int list \<Rightarrow> fs \<Rightarrow> (int list \<times> nat \<times> fs) call" where
  "readBlocks_loop [] dst off currbuf ret s = Returns (ret, currbuf, s)"
| "readBlocks_loop (i # is) dst off currbuf ret s =
     (case readBlock i s of
        Undefined f \<Rightarrow> Undefined f
      | Calls_getBlock b \<Rightarrow> Calls_getBlock b
      | Returns (buf, s1) \<Rightarrow>
          if buf \<noteq> NULL
          then (if currbuf < length dst
                then readBlocks_loop is dst off (currbuf + 1) (ret @ [i])
                       (releaseBuffer buf
                          (memcpy (dst ! currbuf) off buf (u32 (blocksize s1)) s1))
                else Undefined (VectorIndex currbuf))
          else readBlocks_loop is dst off currbuf ret s1)"

definition readBlocks :: "int \<Rightarrow> nat \<Rightarrow> ptr list \<Rightarrow> nat \<Rightarrow> fs \<Rightarrow> (int list \<times> fs) call" where
  "readBlocks pStartBlock n dst off s =
     (case readBlocks_loop [pStartBlock ..pStartBlock + int n - 1] dst off 0 [] s of
        Returns (ret, currbuf, s') \<Rightarrow> Returns (ret, s')
      | Calls_getBlock b \<Rightarrow> Calls_getBlock b
      | Undefined f \<Rightarrow> Undefined f)"

section \<open>The readahead thread\<close>

text \<open>
  \<^verbatim>\<open>std::map<int64, char*> read_blocks\<close> is an association list kept in ascending key
  order, which is the order its iterators follow. \<open>map_assign\<close> is \<^verbatim>\<open>m[k] = v\<close>; it keeps
  the keys distinct, so that erasing the entry an iterator points to is erasing its key.
\<close>

type_synonym cache = "(int \<times> ptr) list"

definition map_find :: "cache \<Rightarrow> int \<Rightarrow> ptr option" where
  "map_find m k = map_of m k"

definition map_erase :: "int \<Rightarrow> cache \<Rightarrow> cache" where
  "map_erase k m = filter (\<lambda>e. fst e \<noteq> k) m"

fun map_assign :: "int \<Rightarrow> ptr \<Rightarrow> cache \<Rightarrow> cache" where
  "map_assign k v [] = [(k, v)]"
| "map_assign k v ((k', v') # m) =
     (if k < k' then (k, v) # (k', v') # m
      else if k = k' then (k, v) # m
      else (k', v') # map_assign k v m)"

text \<open>
  Every statement of \<^verbatim>\<open>ReadaheadThread\<close> runs under \<^verbatim>\<open>mutex\<close>, except the call of
  \<^verbatim>\<open>fs.readBlock\<close> at line 121. A thread therefore moves in atomic sections that end where
  it waits on a condition, releases the mutex or returns, and its program counter names
  the place where it rests. A waiting thread is \<open>Blocked\<close> until a \<^verbatim>\<open>notify_all\<close> (or a
  spurious wake-up) makes it \<open>Woken\<close>. Inside \<^verbatim>\<open>getBlock\<close> the counter carries the argument
  \<open>block\<close> and the local \<open>ret\<close> of line 148.
\<close>

datatype gpc = G_Blocked int ptr | G_Woken int ptr

datatype tpc =
    T_Start
  | T_BP_Blocked | T_BP_Woken
  | T_Idle_Blocked | T_Idle_Woken
  | T_Advance bool
  | T_Unlocked
  | T_Get_Entry int | T_Get gpc
  | T_Relock ptr
  | T_Exited
  | T_Fault fault

datatype cpc = C_Idle | C_Get_Entry int | C_Get gpc | C_Returned ptr | C_Fault fault

text \<open>
  \<open>tpc\<close> is the thread that runs \<^verbatim>\<open>operator()\<close>; \<open>cpc i\<close> is the caller thread number \<open>i\<close>
  of \<^verbatim>\<open>Filesystem::readBlock\<close>.
\<close>

record ra =
  fsys :: fs
  read_blocks :: cache
  current_block :: int
  do_stop :: bool
  readahead_miss :: bool
  tpc :: tpc
  cpc :: "nat \<Rightarrow> cpc"

definition ReadaheadThread_init :: "fs \<Rightarrow> ra" where
  "ReadaheadThread_init f =
     \<lparr>fsys = f\<lparr>readahead_thread := True\<rparr>, read_blocks = [], current_block = -1,
      do_stop = False, readahead_miss = False, tpc = T_Start, cpc = (\<lambda>i. C_Idle)\<rparr>"

text \<open>\<^verbatim>\<open>start_readahead_cond->notify_all()\<close> and \<^verbatim>\<open>read_block_cond->notify_all()\<close>.\<close>

definition notify_start :: "ra \<Rightarrow> ra" where
  "notify_start s =
     s\<lparr>tpc := (case tpc s of T_BP_Blocked \<Rightarrow> T_BP_Woken
                           | T_Idle_Blocked \<Rightarrow> T_Idle_Woken
                           | p \<Rightarrow> p)\<rparr>"

fun wake_gpc :: "gpc \<Rightarrow> gpc" where
  "wake_gpc (G_Blocked block ret) = G_Woken block ret"
| "wake_gpc (G_Woken block ret) = G_Woken block ret"

definition wake_cpc :: "cpc \<Rightarrow> cpc" where
  "wake_cpc p = (case p of C_Get g \<Rightarrow> C_Get (wake_gpc g) | q \<Rightarrow> q)"

definition notify_read :: "ra \<Rightarrow> ra" where
  "notify_read s =
     s\<lparr>tpc := (case tpc s of T_Get g \<Rightarrow> T_Get (wake_gpc g) | p \<Rightarrow> p),
       cpc := (\<lambda>i. wake_cpc (cpc s i))\<rparr>"

subsection \<open>getBlock\<close>

text \<open>Lines 178-201.\<close>

definition readaheadFromInt :: "int \<Rightarrow> ra \<Rightarrow> ra" where
  "readaheadFromInt pBlock s = notify_start (s\<lparr>current_block := pBlock\<rparr>)"

fun clearUnusedReadahead_loop :: "int \<Rightarrow> cache \<Rightarrow> fs \<Rightarrow> cache \<times> fs" where
  "clearUnusedReadahead_loop pBlock [] f = ([], f)"
| "clearUnusedReadahead_loop pBlock ((k, v) # m) f =
     (if k < pBlock then clearUnusedReadahead_loop pBlock m (releaseBuffer v f)
      else ((k, v) # m, f))"

definition clearUnusedReadahead :: "int \<Rightarrow> ra \<Rightarrow> ra" where
  "clearUnusedReadahead pBlock s =
     (let (m, f) = clearUnusedReadahead_loop pBlock (read_blocks s) (fsys s)
      in s\<lparr>read_blocks := m, fsys := f\<rparr>)"

text \<open>
  Lines 148-166, up to the next wait or the return. Line 155 declares a second variable
  \<^verbatim>\<open>ret\<close> inside the braces of the \<^verbatim>\<open>if\<close>: it is the inner one (\<open>ret_inner\<close>) that
  receives \<^verbatim>\<open>it->second\<close>, and the \<open>ret\<close> tested by the loop and returned at line 166 is
  passed on as it was.
\<close>

datatype gres = G_Wait | G_Return ptr

function getBlock_loop :: "int \<Rightarrow> ptr \<Rightarrow> ra \<Rightarrow> gres \<times> ra" where
  "getBlock_loop block ret s =
     (if ret = NULL
      then (case map_find (read_blocks s) block of
              Some v \<Rightarrow>
                (let ret_inner = v
                 in getBlock_loop block ret
                      (s\<lparr>read_blocks := map_erase block (read_blocks s)\<rparr>))
            | None \<Rightarrow> (G_Wait, (readaheadFromInt block s)\<lparr>readahead_miss := True\<rparr>))
      else (G_Return ret, s))"
  by pat_completeness auto
termination
proof (relation "measure (\<lambda>(block, ret, s). length (read_blocks s))")
  show "wf (measure (\<lambda>(block, ret, s). length (read_blocks s)))"
    by simp
next
  fix block :: int and ret :: ptr and s :: ra and v ret_inner :: ptr
  assume "map_find (read_blocks s) block = Some v"
  then have "(block, v) \<in> set (read_blocks s)"
    by (simp add: map_find_def map_of_SomeD)
  then have "length (filter (\<lambda>e. fst e \<noteq> block) (read_blocks s)) < length (read_blocks s)"
    by (intro length_filter_less [where x = "(block, v)"]) simp_all
  then show "((block, ret, s\<lparr>read_blocks := map_erase block (read_blocks s)\<rparr>), block, ret, s)
             \<in> measure (\<lambda>(block, ret, s). length (read_blocks s))"
    by (simp add: map_erase_def)
qed

declare getBlock_loop.simps [simp del]

definition getBlock_enter :: "int \<Rightarrow> ra \<Rightarrow> gres \<times> ra" where
  "getBlock_enter block s = getBlock_loop block NULL (clearUnusedReadahead block s)"

subsection \<open>The thread function\<close>

text \<open>
  Lines 203-218. \<^verbatim>\<open>size/fs.getBlocksize()\<close> is a truncating \<^verbatim>\<open>int64\<close> division.
\<close>

function next_used_block :: "fs \<Rightarrow> int \<Rightarrow> fault + int" where
  "next_used_block f pBlock =
     (if pBlock < dev_size f sdiv blocksize f
      then (case hasBlock f (pBlock + 1) of
              Inl e \<Rightarrow> Inl e
            | Inr b \<Rightarrow> if b then Inr (pBlock + 1) else next_used_block f (pBlock + 1))
      else Inr (- 1))"
  by pat_completeness auto
termination
  by (relation "measure (\<lambda>(f, pBlock). nat (dev_size f sdiv blocksize f - pBlock))") auto

declare next_used_block.simps [simp del]

text \<open>
  Lines 108-116. The iterator \<^verbatim>\<open>it\<close> is declared at line 108 and never assigned: the
  result of \<^verbatim>\<open>read_blocks.find(current_block)\<close> at line 111 is dropped. What the two
  comparisons \<^verbatim>\<open>it!=read_blocks.end()\<close> yield is therefore not determined by the program;
  the model takes it as the parameter \<open>it_is_end\<close>, the same for every round of one
  \<^verbatim>\<open>do\<close> loop. \<open>advance_body\<close> is one round, \<open>advance_loop\<close> the loop with a bound on the
  number of rounds (\<open>None\<close>: the bound was reached).
\<close>

definition advance_body :: "bool \<Rightarrow> ra \<Rightarrow> fault + ra" where
  "advance_body it_is_end s =
     (if \<not> it_is_end
      then (case next_used_block (fsys s) (current_block s) of
              Inl e \<Rightarrow> Inl e
            | Inr b \<Rightarrow> Inr (s\<lparr>current_block := b\<rparr>))
      else Inr s)"

fun advance_loop :: "nat \<Rightarrow> bool \<Rightarrow> ra \<Rightarrow> (fault + ra) option" where
  "advance_loop 0 it_is_end s = None"
| "advance_loop (Suc n) it_is_end s =
     (case advance_body it_is_end s of
        Inl e \<Rightarrow> Some (Inl e)
      | Inr s' \<Rightarrow> if \<not> it_is_end then advance_loop n it_is_end s' else Some (Inr s'))"

text \<open>
  Lines 86-106, from the test of the outer loop to the next resting place. \<open>it\<close> is the
  value \<open>it_is_end\<close> for the \<^verbatim>\<open>do\<close> loop that may be entered.
\<close>

definition task_idle_check :: "bool \<Rightarrow> ra \<Rightarrow> ra" where
  "task_idle_check it s =
     (if current_block s = - 1 then s\<lparr>tpc := T_Idle_Blocked\<rparr>
      else if do_stop s then s\<lparr>tpc := T_Exited\<rparr>
      else s\<lparr>tpc := T_Advance it\<rparr>)"

definition task_after_bp :: "bool \<Rightarrow> ra \<Rightarrow> ra" where
  "task_after_bp it s = (if do_stop s then s\<lparr>tpc := T_Exited\<rparr> else task_idle_check it s)"

definition task_bp_check :: "bool \<Rightarrow> ra \<Rightarrow> ra" where
  "task_bp_check it s =
     (if readahead_low_level_blocks < length (read_blocks s) \<and> \<not> readahead_miss s
      then s\<lparr>tpc := T_BP_Blocked\<rparr>
      else task_after_bp it s)"

definition task_loop_head :: "bool \<Rightarrow> ra \<Rightarrow> ra" where
  "task_loop_head it s =
     (if do_stop s then s\<lparr>tpc := T_Exited\<rparr>
      else if readahead_num_blocks \<le> length (read_blocks s) then task_bp_check it s
      else task_after_bp it s)"

text \<open>Lines 122-130, with \<open>buf\<close> the value \<^verbatim>\<open>fs.readBlock\<close> returned, and on to the loop test.\<close>

definition task_store :: "ptr \<Rightarrow> bool \<Rightarrow> ra \<Rightarrow> ra" where
  "task_store buf it s =
     (let s1 = s\<lparr>read_blocks := map_assign (current_block s) buf (read_blocks s)\<rparr>;
          s2 = (if readahead_miss s1 then (notify_read s1)\<lparr>readahead_miss := False\<rparr> else s1)
      in task_loop_head it s2)"

text \<open>
  Where the thread rests after a section of \<^verbatim>\<open>getBlock\<close>: in the wait of line 162, or,
  had \<^verbatim>\<open>getBlock\<close> returned \<open>p\<close>, before line 122 with \<open>p\<close> as the result of \<^verbatim>\<open>fs.readBlock\<close>.
\<close>

definition task_in_getBlock :: "int \<Rightarrow> ptr \<Rightarrow> gres \<times> ra \<Rightarrow> ra" where
  "task_in_getBlock block ret r =
     (case r of (G_Wait, s) \<Rightarrow> s\<lparr>tpc := T_Get (G_Blocked block ret)\<rparr>
              | (G_Return p, s) \<Rightarrow> s\<lparr>tpc := T_Relock p\<rparr>)"

text \<open>
  One atomic section of the thread. At \<open>T_Unlocked\<close> the mutex is released and line 121
  calls \<^verbatim>\<open>fs.readBlock(current_block)\<close>; when that call reaches line 339 the thread
  itself enters \<^verbatim>\<open>getBlock\<close>.
\<close>

definition task_step :: "bool \<Rightarrow> ra \<Rightarrow> ra" where
  "task_step it s =
     (case tpc s of
        T_Start \<Rightarrow> task_loop_head it s
      | T_BP_Blocked \<Rightarrow> s
      | T_BP_Woken \<Rightarrow> if do_stop s then s\<lparr>tpc := T_Exited\<rparr> else task_bp_check it s
      | T_Idle_Blocked \<Rightarrow> s
      | T_Idle_Woken \<Rightarrow> task_idle_check it s
      | T_Advance e \<Rightarrow>
          (case advance_body e s of
             Inl f \<Rightarrow> s\<lparr>tpc := T_Fault f\<rparr>
           | Inr s' \<Rightarrow>
               if \<not> e then s'
               else if current_block s' \<noteq> - 1 then s'\<lparr>tpc := T_Unlocked\<rparr>
               else task_loop_head it s')
      | T_Unlocked \<Rightarrow>
          (case readBlock (current_block s) (fsys s) of
             Returns (buf, f) \<Rightarrow> s\<lparr>fsys := f, tpc := T_Relock buf\<rparr>
           | Calls_getBlock b \<Rightarrow> s\<lparr>tpc := T_Get_Entry b\<rparr>
           | Undefined e \<Rightarrow> s\<lparr>tpc := T_Fault e\<rparr>)
      | T_Get_Entry b \<Rightarrow> task_in_getBlock b NULL (getBlock_enter b s)
      | T_Get g \<Rightarrow>
          (case g of G_Blocked b ret \<Rightarrow> s
                   | G_Woken b ret \<Rightarrow> task_in_getBlock b ret (getBlock_loop b ret s))
      | T_Relock buf \<Rightarrow> task_store buf it s
      | T_Exited \<Rightarrow> s
      | T_Fault f \<Rightarrow> s)"

subsection \<open>Callers, stop and the schedule\<close>

text \<open>The same for caller \<open>i\<close>, whose \<^verbatim>\<open>readBlock\<close> returns what \<^verbatim>\<open>getBlock\<close> returns.\<close>

definition consumer_in_getBlock :: "nat \<Rightarrow> int \<Rightarrow> ptr \<Rightarrow> gres \<times> ra \<Rightarrow> ra" where
  "consumer_in_getBlock i block ret r =
     (case r of (G_Wait, s) \<Rightarrow> s\<lparr>cpc := (cpc s)(i := C_Get (G_Blocked block ret))\<rparr>
              | (G_Return p, s) \<Rightarrow> s\<lparr>cpc := (cpc s)(i := C_Returned p)\<rparr>)"

text \<open>Caller \<open>i\<close>, outside any call, calls \<^verbatim>\<open>readBlock(b)\<close>.\<close>

definition consumer_call :: "nat \<Rightarrow> int \<Rightarrow> ra \<Rightarrow> ra" where
  "consumer_call i b s =
     (case cpc s i of
        C_Get_Entry b' \<Rightarrow> s
      | C_Get g \<Rightarrow> s
      | C_Fault e \<Rightarrow> s
      | _ \<Rightarrow>
          (case readBlock b (fsys s) of
             Returns (buf, f) \<Rightarrow> s\<lparr>fsys := f, cpc := (cpc s)(i := C_Returned buf)\<rparr>
           | Calls_getBlock b' \<Rightarrow> s\<lparr>cpc := (cpc s)(i := C_Get_Entry b')\<rparr>
           | Undefined e \<Rightarrow> s\<lparr>cpc := (cpc s)(i := C_Fault e)\<rparr>))"

text \<open>Caller \<open>i\<close> runs its next atomic section of \<^verbatim>\<open>getBlock\<close>.\<close>

definition consumer_step :: "nat \<Rightarrow> ra \<Rightarrow> ra" where
  "consumer_step i s =
     (case cpc s i of
        C_Get_Entry b \<Rightarrow> consumer_in_getBlock i b NULL (getBlock_enter b s)
      | C_Get g \<Rightarrow>
          (case g of G_Blocked b ret \<Rightarrow> s
                   | G_Woken b ret \<Rightarrow> consumer_in_getBlock i b ret (getBlock_loop b ret s))
      | _ \<Rightarrow> s)"

text \<open>Lines 169-174.\<close>

definition stop :: "ra \<Rightarrow> ra" where
  "stop s = notify_start (s\<lparr>do_stop := True\<rparr>)"

text \<open>
  Between two rounds of the \<^verbatim>\<open>do\<close> loop the thread keeps the mutex, so no other thread
  enters a section that takes it. \<open>Wake_task\<close> and \<open>Wake_consumer\<close> are spurious wake-ups.
\<close>

definition holds_mutex :: "ra \<Rightarrow> bool" where
  "holds_mutex s = (case tpc s of T_Advance e \<Rightarrow> True | _ \<Rightarrow> False)"

definition wake_task :: "ra \<Rightarrow> ra" where
  "wake_task s = notify_start (s\<lparr>tpc := (case tpc s of T_Get g \<Rightarrow> T_Get (wake_gpc g) | p \<Rightarrow> p)\<rparr>)"

datatype action =
    Task bool
  | Consumer_readBlock nat int
  | Consumer nat
  | Stop
  | Wake_task
  | Wake_consumer nat

fun step :: "ra \<Rightarrow> action \<Rightarrow> ra" where
  "step s (Task it) = task_step it s"
| "step s (Consumer_readBlock i b) = consumer_call i b s"
| "step s (Consumer i) = (if holds_mutex s then s else consumer_step i s)"
| "step s Stop = (if holds_mutex s then s else stop s)"
| "step s Wake_task = wake_task s"
| "step s (Wake_consumer i) = s\<lparr>cpc := (cpc s)(i := wake_cpc (cpc s i))\<rparr>"

definition run :: "action list \<Rightarrow> ra \<Rightarrow> ra" where
  "run acts s = foldl step s acts"

subsection \<open>Auxiliary predicates\<close>

text \<open>
  \<open>io_only s s'\<close>: the step from \<open>s\<close> to \<open>s'\<close> touched only the device, the buffer contents
  and the clock. \<open>direct_ok s\<close>: no readahead thread exists, and neither an idle buffer
  nor the next allocation is the null pointer.
\<close>

definition io_only :: "fs \<Rightarrow> fs \<Rightarrow> bool" where
  "io_only s s' \<longleftrightarrow>
     bitmap s' = bitmap s \<and> blocksize s' = blocksize s \<and> dev_size s' = dev_size s
     \<and> readahead_thread s' = readahead_thread s \<and> has_error s' = has_error s
     \<and> buffers s' = buffers s \<and> next_addr s' = next_addr s \<and> freed s' = freed s"

definition direct_ok :: "fs \<Rightarrow> bool" where
  "direct_ok s \<longleftrightarrow> \<not> readahead_thread s \<and> NULL \<notin> set (buffers s) \<and> next_addr s \<noteq> NULL"

text \<open>
  The invariant of the readahead machine. \<open>occupied bm b\<close>: the presence test answers
  \<open>True\<close> for block \<open>b\<close>. A program counter is in order when the block it carries is
  occupied and its \<open>ret\<close> is null; the thread is never at \<open>T_Relock\<close>, and a caller
  that has returned has returned the null pointer.
\<close>

definition occupied :: "byte list \<Rightarrow> int \<Rightarrow> bool" where
  "occupied bm b \<longleftrightarrow> bit_test bm b = Inr True"

fun gpc_ok :: "byte list \<Rightarrow> gpc \<Rightarrow> bool" where
  "gpc_ok bm (G_Blocked b ret) = (occupied bm b \<and> ret = NULL)"
| "gpc_ok bm (G_Woken b ret) = (occupied bm b \<and> ret = NULL)"

fun tpc_ok :: "byte list \<Rightarrow> int \<Rightarrow> tpc \<Rightarrow> bool" where
  "tpc_ok bm cb T_Unlocked = occupied bm cb"
| "tpc_ok bm cb (T_Get_Entry b) = occupied bm b"
| "tpc_ok bm cb (T_Get g) = gpc_ok bm g"
| "tpc_ok bm cb (T_Relock p) = False"
| "tpc_ok bm cb p = True"

fun cpc_ok :: "byte list \<Rightarrow> cpc \<Rightarrow> bool" where
  "cpc_ok bm (C_Get_Entry b) = occupied bm b"
| "cpc_ok bm (C_Get g) = gpc_ok bm g"
| "cpc_ok bm (C_Returned p) = (p = NULL)"
| "cpc_ok bm p = True"

definition ra_inv :: "ra \<Rightarrow> bool" where
  "ra_inv s \<longleftrightarrow>
     readahead_thread (fsys s) \<and> read_blocks s = []
     \<and> (current_block s = - 1 \<or> occupied (bitmap (fsys s)) (current_block s))
     \<and> tpc_ok (bitmap (fsys s)) (current_block s) (tpc s)
     \<and> (\<forall>i. cpc_ok (bitmap (fsys s)) (cpc s i))"

text \<open>
  \<open>in_getBlock p\<close>: the caller is inside \<^verbatim>\<open>getBlock\<close> with its \<open>ret\<close> null.
  \<open>no_consumer a\<close>: the action belongs to no caller of \<^verbatim>\<open>readBlock\<close>.
\<close>

fun in_getBlock :: "cpc \<Rightarrow> bool" where
  "in_getBlock (C_Get_Entry b) = True"
| "in_getBlock (C_Get (G_Blocked b ret)) = (ret = NULL)"
| "in_getBlock (C_Get (G_Woken b ret)) = (ret = NULL)"
| "in_getBlock p = False"

fun no_consumer :: "action \<Rightarrow> bool" where
  "no_consumer (Consumer_readBlock i b) = False"
| "no_consumer (Consumer i) = False"
| "no_consumer a = True"

section \<open>Example states\<close>

text \<open>
  A device of four blocks of four bytes whose script is empty, so that every read
  delivers nothing; blocks 0 and 1 are occupied and one buffer, at address 7, is idle.
\<close>

definition example_dev :: device where
  "example_dev =
     \<lparr>data = [1, 2, 3, 4, 5, 6, 7, 8, 9, 10, 11, 12, 13, 14, 15, 16], pos = 0,
      seekable = (\<lambda>p. 0 \<le> p \<and> p \<le> 16), frags = [], nreads = 0\<rparr>"

definition example_fs :: fs where
  "example_fs =
     \<lparr>bitmap = [3], blocksize = 4, dev_size = 16, readahead_thread = False,
      has_error = False, buffers = [7], dev = example_dev,
      mem = (\<lambda>a. [0, 0, 0, 0]), next_addr = 8, freed = [], slept_ms = 0\<rparr>"

text \<open>The same device delivering nothing 21 times and the whole block at the 22nd read.\<close>

definition late_fs :: fs where
  "late_fs =
     example_fs\<lparr>dev := example_dev\<lparr>frags :=
       [0, 0, 0, 0, 0, 0, 0, 0, 0, 0, 0, 0, 0, 0, 0, 0, 0, 0, 0, 0, 0, 4]\<rparr>\<rparr>"

text \<open>
  The device delivering the block in three fragments, and the device delivering nothing
  20 times and the whole block at the 21st read, which is the 20th retry.
\<close>

definition fragment_fs :: fs where
  "fragment_fs = example_fs\<lparr>dev := example_dev\<lparr>frags := [1, 2, 1]\<rparr>\<rparr>"

definition twentieth_fs :: fs where
  "twentieth_fs =
     example_fs\<lparr>dev := example_dev\<lparr>frags :=
       [0, 0, 0, 0, 0, 0, 0, 0, 0, 0, 0, 0, 0, 0, 0, 0, 0, 0, 0, 0, 4]\<rparr>\<rparr>"

text \<open>Ten blocks, so two bitmap bytes; bit 10, a padding bit of the second byte, is set.\<close>

definition padded_fs :: fs where
  "padded_fs = example_fs\<lparr>bitmap := [5, 6], dev_size := 40\<rparr>"

text \<open>The pool with 64 idle buffers.\<close>

definition full_pool_fs :: fs where
  "full_pool_fs = example_fs\<lparr>buffers := replicate 64 7\<rparr>"

text \<open>
  The device that delivers nothing 22 times, so that the read of block 0 fails, and then
  four bytes; \<open>flaky_result\<close> is the state after \<^verbatim>\<open>readBlocks(0, 4, ...)\<close> on it.
\<close>

definition flaky_fs :: fs where
  "flaky_fs =
     example_fs\<lparr>dev := example_dev\<lparr>frags :=
       [0, 0, 0, 0, 0, 0, 0, 0, 0, 0, 0, 0, 0, 0, 0, 0, 0, 0, 0, 0, 0, 0, 4]\<rparr>\<rparr>"

definition flaky_result :: fs where
  "flaky_result =
     (case readBlocks_loop [0 .. 3] [20, 21] 0 0 [] flaky_fs of
        Returns (ret, currbuf, s') \<Rightarrow> s'
      | Calls_getBlock b \<Rightarrow> flaky_fs
      | Undefined f \<Rightarrow> flaky_fs)"

text \<open>
  States of the readahead machine over the example device. In \<open>hit_state\<close> block 1 is
  cached in buffer 9 and caller 0 is about to enter \<^verbatim>\<open>getBlock(1)\<close>. In
  \<open>failed_fetch_state\<close> caller 0 waits in \<^verbatim>\<open>getBlock(1)\<close> and \<^verbatim>\<open>fs.readBlock\<close> of line 121
  has come back with the null pointer and the error flag set. In \<open>adv_state\<close> the thread
  is about to run the \<^verbatim>\<open>do\<close> loop with \<open>current_block = 0\<close>, which is cached. In
  \<open>woken_state\<close> the thread has been woken from the backpressure wait with one block
  cached.
\<close>

definition hit_state :: ra where
  "hit_state =
     (ReadaheadThread_init example_fs)
       \<lparr>read_blocks := [(1, 9)], cpc := (\<lambda>i. C_Idle)(0 := C_Get_Entry 1)\<rparr>"

definition failed_fetch_state :: ra where
  "failed_fetch_state =
     (ReadaheadThread_init (example_fs\<lparr>has_error := True\<rparr>))
       \<lparr>current_block := 1, readahead_miss := True, tpc := T_Relock NULL,
        cpc := (\<lambda>i. C_Idle)(0 := C_Get (G_Blocked 1 NULL))\<rparr>"

definition adv_state :: ra where
  "adv_state =
     (ReadaheadThread_init example_fs)\<lparr>read_blocks := [(0, 9)], current_block := 0\<rparr>"





section \<open>The presence test\<close>

lemma and_bit_pos: "0 < (uint (b::byte) AND push_bit n (1::int)) \<longleftrightarrow> bit b n"
proof -
  let ?x = "uint b AND push_bit n (1::int)"
  have nonneg: "0 \<le> ?x" by simp
  have "?x \<noteq> 0 \<longleftrightarrow> bit (uint b) n"
    by (simp only: bit_iff_and_push_bit_not_eq_0)
  moreover have "bit (uint b) n \<longleftrightarrow> bit b n"
    by (auto simp only: bit_uint_iff dest: bit_imp_le_length)
  moreover from nonneg have "0 < ?x \<longleftrightarrow> ?x \<noteq> 0" by linarith
  ultimately show ?thesis by blast
qed

lemma and_bit_pos_power: "0 < (uint (b::byte) AND (2::int) ^ n) \<longleftrightarrow> bit b n"
  using and_bit_pos [of b n] by (simp only: push_bit_of_1)

lemma sdiv_nonneg: "0 \<le> i \<Longrightarrow> i sdiv 8 = i div (8::int)"
  by (cases "i = 0") (simp_all add: signed_divide_int_def)

lemma smod_nonneg: "0 \<le> i \<Longrightarrow> i smod 8 = i mod (8::int)"
  by (cases "i = 0") (simp_all add: signed_modulo_int_def)

text \<open>
  C9, as the claim states it, fails: with ten blocks the index 10 is out of range, and
  \<open>hasBlock\<close> answers \<open>True\<close> from a padding bit; at index 16 it reads the byte after the
  end of the bitmap, and at index -1 it shifts by \<open>2 ^ 64 - 1\<close>. No index is checked.
\<close>

theorem hasBlock_unchecked_index:
  "\<not> (10::int) < 10 \<and> length (bitmap padded_fs) = nat ((10 + 7) div 8)
   \<and> hasBlock padded_fs 10 = Inr True
   \<and> hasBlock padded_fs 16 = Inl (OutOfBoundsRead 2)
   \<and> hasBlock padded_fs (- 1) = Inl (ShiftTooWide (2 ^ 64 - 1))"
  by (intro conjI)
    (simp_all add: hasBlock_def bit_test_def to_size_t_def padded_fs_def example_fs_def
      signed_divide_int_def signed_modulo_int_def)

text \<open>
  C9, amended: for a bitmap of \<open>(nb + 7) div 8\<close> bytes and an index \<open>i\<close> with
  \<open>0 \<le> i < nb\<close>, \<open>hasBlock\<close> returns exactly whether bit \<open>i mod 8\<close> of byte \<open>i div 8\<close> is
  set. It has no side effect: it maps the state to a value and returns no state.
\<close>

theorem hasBlock_in_range:
  assumes "0 \<le> i" "i < nb" "nb \<le> 2 ^ 63" "length (bitmap s) = nat ((nb + 7) div 8)"
  shows "hasBlock s i = Inr (bit (bitmap s ! nat (i div 8)) (nat (i mod 8)))"
proof -
  have d: "i div 8 < 2 ^ 64" "0 \<le> i div 8" using assms by auto
  have m: "0 \<le> i mod 8" "i mod 8 < 8" by auto
  have b1: "to_size_t (i div 8) = nat (i div 8)" using d by (simp add: to_size_t_def)
  have b2: "to_size_t (i mod 8) = nat (i mod 8)" using m by (simp add: to_size_t_def)
  have inb: "nat (i div 8) < length (bitmap s)" using assms by auto
  have sh: "nat (i mod 8) < 32" using m by auto
  show ?thesis
    using inb sh
    by (simp add: hasBlock_def bit_test_def Let_def sdiv_nonneg smod_nonneg assms(1) b1 b2
        and_bit_pos_power)
qed

theorem hasBlock_in_range_witness:
  "(0::int) \<le> 9 \<and> (9::int) < 10 \<and> (10::int) \<le> 2 ^ 63
   \<and> length (bitmap padded_fs) = nat ((10 + 7) div 8)
   \<and> hasBlock padded_fs 9 = Inr True \<and> hasBlock padded_fs 1 = Inr False"
proof -
  have len: "length (bitmap padded_fs) = nat ((10 + 7) div 8)"
    by (simp add: padded_fs_def example_fs_def)
  have "hasBlock padded_fs 9 = Inr (bit (bitmap padded_fs ! nat (9 div 8)) (nat (9 mod 8)))"
    using hasBlock_in_range [of 9 10 padded_fs] len by simp
  moreover have "hasBlock padded_fs 1 = Inr (bit (bitmap padded_fs ! nat (1 div 8)) (nat (1 mod 8)))"
    using hasBlock_in_range [of 1 10 padded_fs] len by simp
  ultimately show ?thesis
    using len by (simp add: padded_fs_def example_fs_def bit_numeral_word_iff)
qed

section \<open>The buffer pool\<close>

lemma getBuffer_length: "length (buffers (snd (getBuffer s))) \<le> length (buffers s)"
  by (simp add: getBuffer_def new_buffer_def)

lemma releaseBuffer_length:
  "length (buffers s) \<le> max_idle_buffers \<Longrightarrow>
   length (buffers (releaseBuffer buf s)) \<le> max_idle_buffers"
  by (simp add: releaseBuffer_def)

lemma pool_step_bound:
  "length (buffers s) \<le> max_idle_buffers \<Longrightarrow>
   length (buffers (pool_step s x)) \<le> max_idle_buffers"
  using getBuffer_length [of s] by (cases x) (simp_all add: releaseBuffer_length)

lemma pool_run_bound:
  "length (buffers s) \<le> max_idle_buffers \<Longrightarrow>
   length (buffers (pool_run ops s)) \<le> max_idle_buffers"
  unfolding pool_run_def
  by (induction ops arbitrary: s) (simp_all add: pool_step_bound)

text \<open>
  C8: from a pool of at most 64 idle buffers (the constructor leaves it empty), any
  sequence of \<open>getBuffer\<close> and \<open>releaseBuffer\<close> calls leaves at most 64; a release at 64
  idle buffers leaves the pool as it is and gives the buffer to \<^verbatim>\<open>delete[]\<close>; a buffer
  released into a pool with room is the one the next \<open>getBuffer\<close> returns, and the pool is
  then as before; \<open>getBuffer\<close> on a non-empty pool takes its last buffer and allocates
  nothing.
\<close>

theorem pool_idle_bound:
  assumes "length (buffers s) \<le> 64"
  shows "length (buffers (pool_run ops s)) \<le> 64
    \<and> (length (buffers s) = 64 \<longrightarrow>
         buffers (releaseBuffer buf s) = buffers s
         \<and> freed (releaseBuffer buf s) = freed s @ [buf])
    \<and> (length (buffers s) < 64 \<longrightarrow> getBuffer (releaseBuffer buf s) = (buf, s))
    \<and> (buffers s \<noteq> [] \<longrightarrow>
         fst (getBuffer s) = last (buffers s)
         \<and> buffers (snd (getBuffer s)) = butlast (buffers s)
         \<and> freed (snd (getBuffer s)) = freed s
         \<and> next_addr (snd (getBuffer s)) = next_addr s)"
proof (intro conjI impI)
  show "length (buffers (pool_run ops s)) \<le> 64"
    using pool_run_bound [of s ops] assms by (simp add: max_idle_buffers_def)
next
  assume "length (buffers s) = 64"
  then show "buffers (releaseBuffer buf s) = buffers s"
    "freed (releaseBuffer buf s) = freed s @ [buf]"
    by (simp_all add: releaseBuffer_def max_idle_buffers_def)
next
  assume "length (buffers s) < 64"
  then show "getBuffer (releaseBuffer buf s) = (buf, s)"
    by (simp add: releaseBuffer_def getBuffer_def max_idle_buffers_def)
next
  assume ne: "buffers s \<noteq> []"
  then show "fst (getBuffer s) = last (buffers s)"
    by (simp add: getBuffer_def last_conv_nth)
  from ne show "buffers (snd (getBuffer s)) = butlast (buffers s)"
    "freed (snd (getBuffer s)) = freed s" "next_addr (snd (getBuffer s)) = next_addr s"
    by (simp_all add: getBuffer_def)
qed

theorem pool_idle_bound_witness:
  "length (buffers example_fs) < 64 \<and> buffers example_fs \<noteq> []
   \<and> length (buffers (pool_run [Release 9, Acquire, Acquire, Acquire] example_fs)) \<le> 64
   \<and> getBuffer (releaseBuffer 9 example_fs) = (9, example_fs)
   \<and> fst (getBuffer example_fs) = 7
   \<and> length (buffers full_pool_fs) = 64
   \<and> buffers (releaseBuffer 9 full_pool_fs) = buffers full_pool_fs
   \<and> freed (releaseBuffer 9 full_pool_fs) = [9]"
proof -
  have a: "length (buffers example_fs) \<le> 64" by (simp add: example_fs_def)
  have b: "length (buffers full_pool_fs) \<le> 64" by (simp add: full_pool_fs_def)
  show ?thesis
    using pool_idle_bound [OF a, of "[Release 9, Acquire, Acquire, Acquire]" 9]
      pool_idle_bound [OF b, of "[]" 9]
    by (simp add: example_fs_def full_pool_fs_def)
qed

section \<open>Reading with retries\<close>

text \<open>
  C6 at a device that never delivers a byte: \<open>readFromDev\<close> fails after 22 calls of
  \<^verbatim>\<open>Read\<close>, the first one and 21 retries, each retry after a wait of 200 ms. On the device
  that delivers the block at the 21st retry the buffer holds the whole block and
  \<open>readFromDev\<close> still reports failure. A block that arrives in three fragments, or at
  the 20th retry, is assembled and reported as read.
\<close>

theorem readFromDev_retries:
  "fst (readFromDev 7 4 example_fs) = False
   \<and> nreads (dev (snd (readFromDev 7 4 example_fs))) = 22
   \<and> slept_ms (snd (readFromDev 7 4 example_fs)) = 21 * 200
   \<and> fst (readFromDev 7 4 late_fs) = False
   \<and> nreads (dev (snd (readFromDev 7 4 late_fs))) = 22
   \<and> mem (snd (readFromDev 7 4 late_fs)) 7 = [1, 2, 3, 4]
   \<and> fst (readFromDev 7 4 twentieth_fs) = True
   \<and> nreads (dev (snd (readFromDev 7 4 twentieth_fs))) = 21
   \<and> mem (snd (readFromDev 7 4 twentieth_fs)) 7 = [1, 2, 3, 4]
   \<and> fst (readFromDev 7 4 fragment_fs) = True
   \<and> nreads (dev (snd (readFromDev 7 4 fragment_fs))) = 3
   \<and> mem (snd (readFromDev 7 4 fragment_fs)) 7 = [1, 2, 3, 4]"
  by (intro conjI)
    (simp_all add: readFromDev_def readFromDev_loop.simps late_fs_def twentieth_fs_def
      fragment_fs_def example_fs_def example_dev_def dev_Read_def Let_def)

section \<open>readBlock without readahead\<close>

text \<open>
  C4 at the device that never delivers: \<open>readBlock 0\<close> takes the idle buffer 7 from the
  pool, the read fails, and the call returns the null pointer with the error flag set;
  buffer 7 is then neither in the pool nor given to \<^verbatim>\<open>delete[]\<close> nor returned.
\<close>

theorem readBlock_failed_read_keeps_buffer:
  "buffers example_fs = [7]
   \<and> (case readBlock 0 example_fs of
        Returns (p, s') \<Rightarrow> p = NULL \<and> has_error s' \<and> buffers s' = [] \<and> freed s' = []
      | Calls_getBlock b \<Rightarrow> False
      | Undefined f \<Rightarrow> False)"
  by (intro conjI)
    (simp_all add: readBlock_def bit_test_def to_size_t_def u32_def getBuffer_def dev_Seek_def
      readFromDev_def readFromDev_loop.simps example_fs_def example_dev_def dev_Read_def
      Let_def)

section \<open>readBlocks without readahead\<close>

lemma io_only_refl: "io_only s s"
  by (simp add: io_only_def)

lemma io_only_trans: "io_only s s1 \<Longrightarrow> io_only s1 s2 \<Longrightarrow> io_only s s2"
  by (simp add: io_only_def)

lemma dev_Read_io_only: "io_only s (snd (dev_Read buf rc n s))"
  by (simp add: dev_Read_def io_only_def Let_def)

lemma readFromDev_loop_io_only: "io_only s (snd (readFromDev_loop buf bsize tries rc s))"
proof (induction buf bsize tries rc s rule: readFromDev_loop.induct)
  case (1 buf bsize tries rc s)
  let ?s1 = "s\<lparr>slept_ms := slept_ms s + 200\<rparr>"
  let ?r = "dev_Read buf rc (bsize - rc) ?s1"
  have a: "io_only s (snd ?r)"
    using dev_Read_io_only [of ?s1 buf rc "bsize - rc"] by (simp add: io_only_def)
  show ?case
  proof (cases "rc < bsize")
    case False
    then show ?thesis by (subst readFromDev_loop.simps) (simp add: io_only_refl)
  next
    case True
    show ?thesis
    proof (cases "tries - 1 < 0")
      case neg: True
      with True a show ?thesis
        by (subst readFromDev_loop.simps) (simp add: Let_def case_prod_beta)
    next
      case nonneg: False
      have "io_only (snd ?r) (snd (readFromDev_loop buf bsize (tries - 1) (rc + fst ?r) (snd ?r)))"
        using "1.IH" [OF True refl refl, of "fst ?r" "snd ?r", OF _ refl refl] nonneg by simp
      with a have "io_only s (snd (readFromDev_loop buf bsize (tries - 1) (rc + fst ?r) (snd ?r)))"
        by (rule io_only_trans)
      with True nonneg show ?thesis
        by (subst readFromDev_loop.simps) (simp add: Let_def case_prod_beta)
    qed
  qed
qed

lemma readFromDev_io_only: "io_only s (snd (readFromDev buf bsize s))"
proof -
  let ?r = "dev_Read buf 0 bsize s"
  have "io_only s (snd ?r)" by (rule dev_Read_io_only)
  moreover have "io_only (snd ?r) (snd (readFromDev_loop buf bsize 20 (fst ?r) (snd ?r)))"
    by (rule readFromDev_loop_io_only)
  ultimately show ?thesis
    by (simp add: readFromDev_def Let_def case_prod_beta) (rule io_only_trans)
qed

lemma getBuffer_ok:
  assumes "direct_ok s"
  shows "fst (getBuffer s) \<noteq> NULL \<and> direct_ok (snd (getBuffer s))
    \<and> bitmap (snd (getBuffer s)) = bitmap s \<and> blocksize (snd (getBuffer s)) = blocksize s
    \<and> has_error (snd (getBuffer s)) = has_error s"
proof (cases "buffers s = []")
  case True
  with assms show ?thesis
    by (simp add: getBuffer_def new_buffer_def direct_ok_def NULL_def)
next
  case False
  then have "buffers s ! (length (buffers s) - 1) \<in> set (buffers s)" by simp
  with assms have "buffers s ! (length (buffers s) - 1) \<noteq> NULL"
    by (auto simp: direct_ok_def)
  moreover have "NULL \<notin> set (butlast (buffers s))"
    using assms by (auto simp: direct_ok_def dest: in_set_butlastD)
  ultimately show ?thesis
    using assms False by (simp add: getBuffer_def direct_ok_def)
qed

lemma io_only_direct_ok: "io_only s s' \<Longrightarrow> direct_ok s \<Longrightarrow> direct_ok s'"
  by (simp add: io_only_def direct_ok_def)

lemma readBlock_direct:
  assumes ok: "direct_ok s" and rb: "readBlock i s = Returns (p, s')"
  shows "bitmap s' = bitmap s \<and> blocksize s' = blocksize s \<and> direct_ok s'
    \<and> (has_error s \<longrightarrow> has_error s')
    \<and> (p \<noteq> NULL \<longrightarrow> hasBlock s i = Inr True)
    \<and> (p = NULL \<and> hasBlock s i = Inr True \<longrightarrow> has_error s')"
proof -
  from rb obtain has_bit where hb: "bit_test (bitmap s) i = Inr has_bit"
    by (cases "bit_test (bitmap s) i") (simp_all add: readBlock_def)
  show ?thesis
  proof (cases has_bit)
    case False
    with hb rb ok show ?thesis by (simp add: readBlock_def hasBlock_def)
  next
    case True
    from True hb have hb': "bit_test (bitmap s) i = Inr True" by simp
    have direct: "\<not> readahead_thread s" using ok by (simp add: direct_ok_def)
    let ?sk = "dev_Seek (i * blocksize s) s"
    have sk: "io_only s (snd ?sk)" by (simp add: dev_Seek_def io_only_def)
    show ?thesis
    proof (cases "fst ?sk")
      case seekfail: False
      with hb' direct rb have "p = NULL" "s' = (snd ?sk)\<lparr>has_error := True\<rparr>"
        by (simp_all add: readBlock_def case_prod_beta)
      with sk ok show ?thesis by (simp add: io_only_def direct_ok_def)
    next
      case seekok: True
      let ?s1 = "snd ?sk"
      let ?g = "getBuffer ?s1"
      let ?r = "readFromDev (fst ?g) (u32 (blocksize s)) (snd ?g)"
      have ok1: "direct_ok ?s1" using sk ok by (rule io_only_direct_ok)
      note g = getBuffer_ok [OF ok1]
      have r: "io_only (snd ?g) (snd ?r)" by (rule readFromDev_io_only)
      have ok3: "direct_ok (snd ?r)" using r g by (blast intro: io_only_direct_ok)
      have same: "bitmap (snd ?r) = bitmap s" "blocksize (snd ?r) = blocksize s"
        "has_error (snd ?r) = has_error s"
        using r g sk by (simp_all add: io_only_def)
      show ?thesis
      proof (cases "fst ?r")
        case readfail: False
        with hb' direct rb seekok have "p = NULL" "s' = (snd ?r)\<lparr>has_error := True\<rparr>"
          by (simp_all add: readBlock_def case_prod_beta Let_def)
        with same ok3 show ?thesis by (simp add: direct_ok_def)
      next
        case readok: True
        with hb' direct rb seekok have "p = fst ?g" "s' = snd ?r"
          by (auto simp add: readBlock_def case_prod_beta Let_def)
        with same ok3 g hb' show ?thesis by (simp add: hasBlock_def)
      qed
    qed
  qed
qed

lemma release_memcpy_ok:
  assumes "direct_ok s" "buf \<noteq> NULL"
  shows "direct_ok (releaseBuffer buf (memcpy d off buf n s))
    \<and> bitmap (releaseBuffer buf (memcpy d off buf n s)) = bitmap s
    \<and> has_error (releaseBuffer buf (memcpy d off buf n s)) = has_error s"
  using assms by (simp add: releaseBuffer_def memcpy_def direct_ok_def)

lemma readBlocks_loop_acc:
  assumes "direct_ok s"
    and "readBlocks_loop is dst off currbuf ret s = Returns (ret', currbuf', s')"
  shows "\<exists>r. ret' = ret @ r \<and> currbuf' = currbuf + length r \<and> subseq r is
    \<and> (\<forall>i\<in>set r. hasBlock s i = Inr True)
    \<and> (\<forall>i\<in>set is. hasBlock s i = Inr True \<and> i \<notin> set r \<longrightarrow> has_error s')
    \<and> (has_error s \<longrightarrow> has_error s')"
  using assms
proof (induction "is" arbitrary: currbuf ret s)
  case Nil
  then show ?case by simp
next
  case (Cons i "is")
  from Cons.prems(2) obtain p s1 where rb: "readBlock i s = Returns (p, s1)"
    by (cases "readBlock i s") (auto split: prod.splits)
  note d = readBlock_direct [OF Cons.prems(1) rb]
  have hbeq: "\<And>t j. bitmap t = bitmap s \<Longrightarrow> hasBlock t j = hasBlock s j"
    by (simp add: hasBlock_def)
  show ?case
  proof (cases "p = NULL")
    case True
    with rb Cons.prems(2)
    have loop: "readBlocks_loop is dst off currbuf ret s1 = Returns (ret', currbuf', s')"
      by simp
    from d have ok1: "direct_ok s1" by simp
    from Cons.IH [OF ok1 loop] obtain r where r: "ret' = ret @ r" "currbuf' = currbuf + length r"
      "subseq r is" "\<forall>j\<in>set r. hasBlock s1 j = Inr True"
      "\<forall>j\<in>set is. hasBlock s1 j = Inr True \<and> j \<notin> set r \<longrightarrow> has_error s'"
      "has_error s1 \<longrightarrow> has_error s'"
      by blast
    have "subseq r (i # is)" using r(3) by (rule list_emb_Cons)
    moreover have "hasBlock s i = Inr True \<and> i \<notin> set r \<longrightarrow> has_error s'"
      using d True r(6) by blast
    ultimately show ?thesis
      using r d hbeq [of s1] by (intro exI [of _ r]) auto
  next
    case False
    with rb Cons.prems(2) have inb: "currbuf < length dst"
      by (auto split: if_splits)
    let ?s2 = "releaseBuffer p (memcpy (dst ! currbuf) off p (u32 (blocksize s1)) s1)"
    from False rb Cons.prems(2) inb
    have loop: "readBlocks_loop is dst off (currbuf + 1) (ret @ [i]) ?s2 = Returns (ret', currbuf', s')"
      by simp
    from d have ok1: "direct_ok s1" by simp
    note m = release_memcpy_ok [OF ok1 False, of "dst ! currbuf" off "u32 (blocksize s1)"]
    from m have ok2: "direct_ok ?s2" by simp
    from Cons.IH [OF ok2 loop] obtain r where r: "ret' = (ret @ [i]) @ r"
      "currbuf' = (currbuf + 1) + length r"
      "subseq r is" "\<forall>j\<in>set r. hasBlock ?s2 j = Inr True"
      "\<forall>j\<in>set is. hasBlock ?s2 j = Inr True \<and> j \<notin> set r \<longrightarrow> has_error s'"
      "has_error ?s2 \<longrightarrow> has_error s'"
      by blast
    have bm2: "bitmap ?s2 = bitmap s" using m d by simp
    have "subseq (i # r) (i # is)" using r(3) by simp
    moreover have "hasBlock s i = Inr True" using d False by simp
    moreover have "has_error s \<longrightarrow> has_error s'" using d m r(6) by simp
    ultimately show ?thesis
      using r hbeq [OF bm2] by (intro exI [of _ "i # r"]) auto
  qed
qed

text \<open>
  C10: without readahead, when \<^verbatim>\<open>readBlocks(start, n, dst, off)\<close> returns \<open>ret\<close>, the number
  of destination slots used is the length of \<open>ret\<close>; \<open>ret\<close> lists, in ascending order,
  blocks of the range that the bitmap marks occupied; an occupied block of the range that
  is missing from \<open>ret\<close> has left the error flag set, and the flag is never cleared. The
  loop treats every null result of \<open>readBlock\<close> alike, whether the block is absent or its
  read failed: it goes on with \<open>ret\<close> and \<open>currbuf\<close> unchanged.
\<close>

theorem readBlocks_failed_block_omitted:
  assumes "direct_ok s"
    and "readBlocks_loop [start .. start + int n - 1] dst off 0 [] s = Returns (ret, currbuf, s')"
  shows "readBlocks start n dst off s = Returns (ret, s')
    \<and> currbuf = length ret
    \<and> subseq ret [start .. start + int n - 1]
    \<and> (\<forall>i\<in>set ret. hasBlock s i = Inr True)
    \<and> (\<forall>i. start \<le> i \<and> i < start + int n \<and> hasBlock s i = Inr True \<and> i \<notin> set ret
          \<longrightarrow> has_error s')
    \<and> (has_error s \<longrightarrow> has_error s')
    \<and> (\<forall>i is cb r t t'. readBlock i t = Returns (NULL, t') \<longrightarrow>
          readBlocks_loop (i # is) dst off cb r t = readBlocks_loop is dst off cb r t')"
proof -
  from readBlocks_loop_acc [OF assms] obtain r where r: "ret = [] @ r" "currbuf = 0 + length r"
    "subseq r [start .. start + int n - 1]" "\<forall>i\<in>set r. hasBlock s i = Inr True"
    "\<forall>i\<in>set [start .. start + int n - 1]. hasBlock s i = Inr True \<and> i \<notin> set r \<longrightarrow> has_error s'"
    "has_error s \<longrightarrow> has_error s'"
    by blast
  have "readBlocks start n dst off s = Returns (ret, s')"
    using assms(2) by (simp add: readBlocks_def)
  moreover have "\<forall>i is cb r t t'. readBlock i t = Returns (NULL, t') \<longrightarrow>
      readBlocks_loop (i # is) dst off cb r t = readBlocks_loop is dst off cb r t'"
    by simp
  ultimately show ?thesis using r by auto
qed

theorem readBlocks_failed_block_omitted_witness:
  "direct_ok flaky_fs \<and> hasBlock flaky_fs 0 = Inr True \<and> \<not> has_error flaky_fs
   \<and> readBlocks 0 4 [20, 21] 0 flaky_fs = Returns ([1], flaky_result)
   \<and> has_error flaky_result \<and> mem flaky_result 20 = [5, 6, 7, 8]"
proof -
  have ok: "direct_ok flaky_fs"
    by (simp add: direct_ok_def flaky_fs_def example_fs_def NULL_def)
  have run: "readBlocks_loop [0 .. 0 + int 4 - 1] [20, 21] 0 0 [] flaky_fs
      = Returns ([1], 1, flaky_result)"
    by (simp add: flaky_result_def flaky_fs_def example_fs_def example_dev_def upto.simps
        readBlock_def bit_test_def to_size_t_def u32_def getBuffer_def new_buffer_def
        releaseBuffer_def memcpy_def max_idle_buffers_def NULL_def dev_Seek_def
        readFromDev_def readFromDev_loop.simps dev_Read_def Let_def
        signed_divide_int_def signed_modulo_int_def)
  have hb: "hasBlock flaky_fs 0 = Inr True"
    by (simp add: hasBlock_def bit_test_def to_size_t_def flaky_fs_def example_fs_def)
  have ne: "\<not> has_error flaky_fs"
    by (simp add: flaky_fs_def example_fs_def)
  have m: "mem flaky_result 20 = [5, 6, 7, 8]"
    by (simp add: flaky_result_def flaky_fs_def example_fs_def example_dev_def upto.simps
        readBlock_def bit_test_def to_size_t_def u32_def getBuffer_def new_buffer_def
        releaseBuffer_def memcpy_def max_idle_buffers_def NULL_def dev_Seek_def
        readFromDev_def readFromDev_loop.simps dev_Read_def Let_def
        signed_divide_int_def signed_modulo_int_def)
  note t = readBlocks_failed_block_omitted [OF ok run]
  from t have "(0::int) \<le> 0 \<and> 0 < 0 + int 4 \<and> hasBlock flaky_fs 0 = Inr True \<and> 0 \<notin> set [1::int]
      \<longrightarrow> has_error flaky_result"
    by blast
  with hb have "has_error flaky_result" by simp
  with t hb ok ne m show ?thesis by simp
qed

section \<open>getBlock\<close>

text \<open>
  The loop of \<^verbatim>\<open>getBlock\<close> in closed form: entered with a null \<open>ret\<close> it erases the entry
  of \<open>block\<close>, if there is one, asks for the block again and waits; \<open>ret\<close> is still null.
\<close>

lemma map_find_erase: "map_find (map_erase k m) k = None"
  by (induction m) (auto simp: map_find_def map_erase_def)

lemma map_erase_absent: "map_find m k = None \<Longrightarrow> map_erase k m = m"
  by (induction m) (auto simp: map_find_def map_erase_def split: if_splits)

lemma map_erase_idem: "map_erase k (map_erase k m) = map_erase k m"
  by (simp add: map_erase_def)

lemma getBlock_loop_miss:
  "map_find (read_blocks s) block = None \<Longrightarrow>
   getBlock_loop block NULL s = (G_Wait, (readaheadFromInt block s)\<lparr>readahead_miss := True\<rparr>)"
  by (subst getBlock_loop.simps) simp

lemma getBlock_loop_eq:
  "getBlock_loop block ret s =
     (if ret = NULL
      then (G_Wait, (readaheadFromInt block (s\<lparr>read_blocks := map_erase block (read_blocks s)\<rparr>))
                      \<lparr>readahead_miss := True\<rparr>)
      else (G_Return ret, s))"
proof (cases "ret = NULL")
  case False
  then show ?thesis by (subst getBlock_loop.simps) simp
next
  case True
  let ?s1 = "s\<lparr>read_blocks := map_erase block (read_blocks s)\<rparr>"
  have miss: "getBlock_loop block NULL ?s1
      = (G_Wait, (readaheadFromInt block ?s1)\<lparr>readahead_miss := True\<rparr>)"
    by (rule getBlock_loop_miss) (simp add: map_find_erase)
  show ?thesis
  proof (cases "map_find (read_blocks s) block")
    case None
    then have "?s1 = s" by (simp add: map_erase_absent)
    with miss True show ?thesis by simp
  next
    case (Some v)
    then have "getBlock_loop block NULL s = getBlock_loop block NULL ?s1"
      by (subst getBlock_loop.simps) simp
    with miss True show ?thesis by simp
  qed
qed

text \<open>A caller inside \<^verbatim>\<open>getBlock\<close> stays inside, whatever any thread does.\<close>

lemma in_getBlock_wake: "in_getBlock (wake_cpc p) = in_getBlock p"
  by (cases p rule: in_getBlock.cases) (simp_all add: wake_cpc_def)

lemma cpc_notify_start [simp]: "cpc (notify_start s) = cpc s"
  by (simp add: notify_start_def)

lemma cpc_clearUnusedReadahead [simp]: "cpc (clearUnusedReadahead b s) = cpc s"
  by (simp add: clearUnusedReadahead_def case_prod_beta)

lemma cpc_getBlock_loop [simp]: "cpc (snd (getBlock_loop b r s)) = cpc s"
  by (simp add: getBlock_loop_eq readaheadFromInt_def)

lemma cpc_getBlock_enter [simp]: "cpc (snd (getBlock_enter b s)) = cpc s"
  by (simp add: getBlock_enter_def)

lemma cpc_task_in_getBlock [simp]: "cpc (task_in_getBlock b r x) = cpc (snd x)"
  by (cases x; cases "fst x") (simp_all add: task_in_getBlock_def)

lemma cpc_task_heads [simp]:
  "cpc (task_idle_check it s) = cpc s" "cpc (task_after_bp it s) = cpc s"
  "cpc (task_bp_check it s) = cpc s" "cpc (task_loop_head it s) = cpc s"
  by (simp_all add: task_idle_check_def task_after_bp_def task_bp_check_def task_loop_head_def)

lemma cpc_task_store:
  "cpc (task_store buf it s) i = cpc s i \<or> cpc (task_store buf it s) i = wake_cpc (cpc s i)"
  by (simp add: task_store_def notify_read_def Let_def)

lemma cpc_task_step:
  "cpc (task_step it s) i = cpc s i \<or> cpc (task_step it s) i = wake_cpc (cpc s i)"
proof (cases "tpc s")
  case (T_Advance e)
  then show ?thesis
    by (auto simp: task_step_def advance_body_def split: sum.splits)
next
  case T_Unlocked
  then show ?thesis
    by (auto simp: task_step_def split: call.splits)
next
  case (T_Get g)
  then show ?thesis by (cases g) (simp_all add: task_step_def)
next
  case (T_Relock p)
  then show ?thesis using cpc_task_store [of p it s i] by (simp add: task_step_def)
qed (simp_all add: task_step_def)

lemma in_getBlock_task_step: "in_getBlock (cpc s i) \<Longrightarrow> in_getBlock (cpc (task_step it s) i)"
  using cpc_task_step [of it s i] by (auto simp: in_getBlock_wake)

lemma in_getBlock_consumer_call:
  "in_getBlock (cpc s i) \<Longrightarrow> in_getBlock (cpc (consumer_call j b s) i)"
proof (cases "j = i")
  case True
  assume "in_getBlock (cpc s i)"
  with True show ?thesis
    by (cases "cpc s i" rule: in_getBlock.cases) (simp_all add: consumer_call_def)
next
  case False
  assume "in_getBlock (cpc s i)"
  with False show ?thesis
    by (cases "cpc s j") (auto simp: consumer_call_def split: call.splits)
qed

lemma fst_getBlock_NULL: "fst (getBlock_loop b NULL s) = G_Wait" "fst (getBlock_enter b s) = G_Wait"
  by (simp_all add: getBlock_loop_eq getBlock_enter_def)

lemma cpc_consumer_in_getBlock:
  "fst x = G_Wait \<Longrightarrow>
   cpc (consumer_in_getBlock j b r x) = (cpc (snd x))(j := C_Get (G_Blocked b r))"
  by (cases x) (simp add: consumer_in_getBlock_def)

lemma in_getBlock_consumer_step:
  assumes "in_getBlock (cpc s i)"
  shows "in_getBlock (cpc (consumer_step j s) i)"
proof (cases "cpc s j")
  case (C_Get_Entry b)
  with assms show ?thesis
    by (simp add: consumer_step_def cpc_consumer_in_getBlock fst_getBlock_NULL)
next
  case (C_Get g)
  show ?thesis
  proof (cases g)
    case (G_Blocked b r)
    with C_Get assms show ?thesis by (simp add: consumer_step_def)
  next
    case (G_Woken b r)
    show ?thesis
    proof (cases "r = NULL")
      case True
      with C_Get G_Woken assms show ?thesis
        by (simp add: consumer_step_def cpc_consumer_in_getBlock fst_getBlock_NULL)
    next
      case False
      with C_Get G_Woken assms have "j \<noteq> i" by auto
      with C_Get G_Woken False assms show ?thesis
        by (simp add: consumer_step_def getBlock_loop_eq consumer_in_getBlock_def)
    qed
  qed
qed (use assms in \<open>simp_all add: consumer_step_def\<close>)

lemma in_getBlock_step: "in_getBlock (cpc s i) \<Longrightarrow> in_getBlock (cpc (step s a) i)"
  by (cases a)
    (auto simp: in_getBlock_task_step in_getBlock_consumer_call in_getBlock_consumer_step
      stop_def wake_task_def in_getBlock_wake)

lemma in_getBlock_run: "in_getBlock (cpc s i) \<Longrightarrow> in_getBlock (cpc (run acts s) i)"
  unfolding run_def by (induction acts arbitrary: s) (simp_all add: in_getBlock_step)

lemma in_getBlock_not_returned: "in_getBlock p \<Longrightarrow> p \<noteq> C_Returned r"
  by (cases p rule: in_getBlock.cases) simp_all

section \<open>The invariant of the readahead machine\<close>

text \<open>
  In this source \<^verbatim>\<open>fs.readBlock\<close>, called by the thread at line 121 while
  \<^verbatim>\<open>readahead_thread\<close> is set, either answers null for an unoccupied block or enters
  \<^verbatim>\<open>getBlock\<close>; the thread only ever targets occupied blocks, so it never comes back to
  line 123: from the initial state the cache stays empty and no caller is ever handed a
  buffer.
\<close>

lemma readBlock_readahead:
  "readahead_thread f \<Longrightarrow>
   readBlock b f = (case bit_test (bitmap f) b of
                      Inl e \<Rightarrow> Undefined e
                    | Inr hb \<Rightarrow> if hb then Calls_getBlock b else Returns (NULL, f))"
  by (simp add: readBlock_def split: sum.splits)

lemma next_used_block_result:
  "next_used_block f p = Inr b \<Longrightarrow> b = - 1 \<or> hasBlock f b = Inr True"
proof (induction f p rule: next_used_block.induct)
  case (1 f pBlock)
  from "1.prems" show ?case
    by (subst (asm) next_used_block.simps) (auto split: if_splits sum.splits dest: "1.IH")
qed

lemma gpc_ok_wake: "gpc_ok bm (wake_gpc g) = gpc_ok bm g"
  by (cases g) simp_all

lemma cpc_ok_wake: "cpc_ok bm (wake_cpc p) = cpc_ok bm p"
  by (cases p) (simp_all add: wake_cpc_def gpc_ok_wake)

lemma ra_inv_init: "ra_inv (ReadaheadThread_init f)"
  by (simp add: ra_inv_def ReadaheadThread_init_def)

lemma task_idle_check_inv: "ra_inv s \<Longrightarrow> ra_inv (task_idle_check it s)"
  by (auto simp: ra_inv_def task_idle_check_def)

lemma task_after_bp_inv: "ra_inv s \<Longrightarrow> ra_inv (task_after_bp it s)"
  using task_idle_check_inv [of s it] by (auto simp: task_after_bp_def ra_inv_def)

lemma task_bp_check_inv: "ra_inv s \<Longrightarrow> ra_inv (task_bp_check it s)"
  using task_after_bp_inv [of s it] by (auto simp: task_bp_check_def ra_inv_def)

lemma task_loop_head_inv: "ra_inv s \<Longrightarrow> ra_inv (task_loop_head it s)"
  using task_after_bp_inv [of s it] task_bp_check_inv [of s it]
  by (auto simp: task_loop_head_def ra_inv_def)


lemma clearUnusedReadahead_empty:
  "read_blocks s = [] \<Longrightarrow> clearUnusedReadahead b s = s"
  by (simp add: clearUnusedReadahead_def)

lemma getBlock_loop_inv:
  assumes "ra_inv s"
  shows "getBlock_loop b NULL s
    = (G_Wait, (notify_start (s\<lparr>current_block := b\<rparr>))\<lparr>readahead_miss := True\<rparr>)"
proof -
  from assms have e: "read_blocks s = []" by (simp add: ra_inv_def)
  then have "s\<lparr>read_blocks := map_erase b (read_blocks s)\<rparr> = s"
    by (simp add: map_erase_def)
  then show ?thesis
    by (simp add: getBlock_loop_eq readaheadFromInt_def)
qed

lemma getBlock_enter_inv:
  assumes "ra_inv s"
  shows "getBlock_enter b s
    = (G_Wait, (notify_start (s\<lparr>current_block := b\<rparr>))\<lparr>readahead_miss := True\<rparr>)"
  using assms getBlock_loop_inv [OF assms, of b]
  by (simp add: getBlock_enter_def clearUnusedReadahead_empty ra_inv_def)

lemma notify_start_miss_inv:
  assumes "ra_inv s" "occupied (bitmap (fsys s)) b"
  shows "ra_inv ((notify_start (s\<lparr>current_block := b\<rparr>))\<lparr>readahead_miss := True\<rparr>)"
proof (cases "tpc s")
  case T_Unlocked
  with assms show ?thesis by (simp add: ra_inv_def notify_start_def)
qed (use assms in \<open>simp_all add: ra_inv_def notify_start_def\<close>)

lemma task_in_getBlock_inv:
  assumes "ra_inv s" "occupied (bitmap (fsys s)) b"
  shows "ra_inv (task_in_getBlock b NULL
    (G_Wait, (notify_start (s\<lparr>current_block := b\<rparr>))\<lparr>readahead_miss := True\<rparr>))"
  using notify_start_miss_inv [OF assms] assms(2)
  by (simp add: task_in_getBlock_def ra_inv_def notify_start_def)

lemma consumer_in_getBlock_inv:
  assumes "ra_inv s" "occupied (bitmap (fsys s)) b"
  shows "ra_inv (consumer_in_getBlock i b NULL
    (G_Wait, (notify_start (s\<lparr>current_block := b\<rparr>))\<lparr>readahead_miss := True\<rparr>))"
  using notify_start_miss_inv [OF assms] assms(2)
  by (simp add: consumer_in_getBlock_def ra_inv_def notify_start_def)


lemma task_step_inv:
  assumes "ra_inv s"
  shows "ra_inv (task_step it s)"
proof (cases "tpc s")
  case T_Start
  then show ?thesis using assms by (simp add: task_step_def task_loop_head_inv)
next
  case T_BP_Blocked
  then show ?thesis using assms by (simp add: task_step_def)
next
  case T_BP_Woken
  have "ra_inv (s\<lparr>tpc := T_Exited\<rparr>)" using assms by (auto simp: ra_inv_def)
  with T_BP_Woken show ?thesis
    using task_bp_check_inv [OF assms, of it] by (simp add: task_step_def)
next
  case T_Idle_Blocked
  then show ?thesis using assms by (simp add: task_step_def)
next
  case T_Idle_Woken
  then show ?thesis using assms by (simp add: task_step_def task_idle_check_inv)
next
  case (T_Advance e)
  show ?thesis
  proof (cases e)
    case True
    then have b: "advance_body e s = Inr s" by (simp add: advance_body_def)
    show ?thesis
    proof (cases "current_block s = - 1")
      case c: True
      with T_Advance True b show ?thesis
        using assms by (simp add: task_step_def task_loop_head_inv)
    next
      case c: False
      with assms have "ra_inv (s\<lparr>tpc := T_Unlocked\<rparr>)"
        by (auto simp: ra_inv_def)
      with T_Advance True b c show ?thesis by (simp add: task_step_def)
    qed
  next
    case False
    show ?thesis
    proof (cases "next_used_block (fsys s) (current_block s)")
      case (Inl f)
      with assms have "ra_inv (s\<lparr>tpc := T_Fault f\<rparr>)"
        by (auto simp: ra_inv_def)
      with T_Advance False Inl show ?thesis by (simp add: task_step_def advance_body_def)
    next
      case (Inr nb)
      from next_used_block_result [OF Inr] have "nb = - 1 \<or> occupied (bitmap (fsys s)) nb"
        by (simp add: occupied_def hasBlock_def)
      with assms T_Advance have "ra_inv (s\<lparr>current_block := nb\<rparr>)"
        by (auto simp: ra_inv_def)
      with T_Advance False Inr show ?thesis by (simp add: task_step_def advance_body_def)
    qed
  qed
next
  case T_Unlocked
  with assms have occ: "bit_test (bitmap (fsys s)) (current_block s) = Inr True"
    and ra: "readahead_thread (fsys s)"
    by (simp_all add: ra_inv_def occupied_def)
  then have "readBlock (current_block s) (fsys s) = Calls_getBlock (current_block s)"
    by (simp add: readBlock_readahead)
  moreover from assms occ have "ra_inv (s\<lparr>tpc := T_Get_Entry (current_block s)\<rparr>)"
    by (auto simp: ra_inv_def occupied_def)
  ultimately show ?thesis using T_Unlocked by (simp add: task_step_def)
next
  case (T_Get_Entry b)
  with assms have occ: "occupied (bitmap (fsys s)) b" by (simp add: ra_inv_def)
  show ?thesis
    using T_Get_Entry task_in_getBlock_inv [OF assms occ]
    by (simp add: task_step_def getBlock_enter_inv [OF assms])
next
  case (T_Get g)
  show ?thesis
  proof (cases g)
    case (G_Blocked b r)
    with T_Get assms show ?thesis by (simp add: task_step_def)
  next
    case (G_Woken b r)
    with T_Get assms have occ: "occupied (bitmap (fsys s)) b" and r: "r = NULL"
      by (simp_all add: ra_inv_def)
    show ?thesis
      using T_Get G_Woken r task_in_getBlock_inv [OF assms occ]
      by (simp add: task_step_def getBlock_loop_inv [OF assms])
  qed
next
  case (T_Relock p)
  with assms show ?thesis by (simp add: ra_inv_def)
next
  case T_Exited
  then show ?thesis using assms by (simp add: task_step_def)
next
  case (T_Fault f)
  then show ?thesis using assms by (simp add: task_step_def)
qed

lemma consumer_call_inv:
  assumes "ra_inv s"
  shows "ra_inv (consumer_call i b s)"
proof -
  from assms have ra: "readahead_thread (fsys s)" by (simp add: ra_inv_def)
  have rb: "readBlock b (fsys s) = (case bit_test (bitmap (fsys s)) b of
                      Inl e \<Rightarrow> Undefined e
                    | Inr hb \<Rightarrow> if hb then Calls_getBlock b else Returns (NULL, fsys s))"
    using ra by (rule readBlock_readahead)
  have a: "\<And>p. cpc_ok (bitmap (fsys s)) p \<Longrightarrow> ra_inv (s\<lparr>cpc := (cpc s)(i := p)\<rparr>)"
    using assms by (simp add: ra_inv_def)
  have "ra_inv (case readBlock b (fsys s) of
             Returns (buf, f) \<Rightarrow> s\<lparr>fsys := f, cpc := (cpc s)(i := C_Returned buf)\<rparr>
           | Calls_getBlock b' \<Rightarrow> s\<lparr>cpc := (cpc s)(i := C_Get_Entry b')\<rparr>
           | Undefined e \<Rightarrow> s\<lparr>cpc := (cpc s)(i := C_Fault e)\<rparr>)"
  proof (cases "bit_test (bitmap (fsys s)) b")
    case (Inl e)
    then show ?thesis using a [of "C_Fault e"] by (simp add: rb)
  next
    case (Inr hb)
    show ?thesis
    proof (cases hb)
      case True
      with Inr show ?thesis using a [of "C_Get_Entry b"] by (simp add: rb occupied_def)
    next
      case False
      with Inr show ?thesis using a [of "C_Returned NULL"] by (simp add: rb)
    qed
  qed
  then show ?thesis using assms
    by (cases "cpc s i") (simp_all add: consumer_call_def)
qed

lemma consumer_step_inv:
  assumes "ra_inv s"
  shows "ra_inv (consumer_step i s)"
proof (cases "cpc s i")
  case (C_Get_Entry b)
  with assms have occ: "occupied (bitmap (fsys s)) b"
    by (auto simp: ra_inv_def dest: spec [of _ i])
  show ?thesis
    using C_Get_Entry consumer_in_getBlock_inv [OF assms occ]
    by (simp add: consumer_step_def getBlock_enter_inv [OF assms])
next
  case (C_Get g)
  show ?thesis
  proof (cases g)
    case (G_Blocked b r)
    with C_Get assms show ?thesis by (simp add: consumer_step_def)
  next
    case (G_Woken b r)
    with C_Get assms have "gpc_ok (bitmap (fsys s)) (G_Woken b r)"
      by (auto simp: ra_inv_def dest: spec [of _ i])
    then have occ: "occupied (bitmap (fsys s)) b" and r: "r = NULL" by simp_all
    show ?thesis
      using C_Get G_Woken r consumer_in_getBlock_inv [OF assms occ]
      by (simp add: consumer_step_def getBlock_loop_inv [OF assms])
  qed
qed (use assms in \<open>simp_all add: consumer_step_def\<close>)

lemma notify_start_inv: "ra_inv s \<Longrightarrow> ra_inv (notify_start s)"
  by (cases "tpc s") (auto simp: ra_inv_def notify_start_def)

lemma stop_inv: "ra_inv s \<Longrightarrow> ra_inv (stop s)"
proof -
  assume "ra_inv s"
  then have "ra_inv (s\<lparr>do_stop := True\<rparr>)" by (simp add: ra_inv_def)
  then show ?thesis unfolding stop_def by (rule notify_start_inv)
qed

lemma wake_task_inv: "ra_inv s \<Longrightarrow> ra_inv (wake_task s)"
proof -
  assume a: "ra_inv s"
  have "ra_inv (s\<lparr>tpc := (case tpc s of T_Get g \<Rightarrow> T_Get (wake_gpc g) | p \<Rightarrow> p)\<rparr>)"
    using a by (cases "tpc s") (auto simp: ra_inv_def gpc_ok_wake)
  then show ?thesis unfolding wake_task_def by (rule notify_start_inv)
qed

lemma wake_consumer_inv: "ra_inv s \<Longrightarrow> ra_inv (s\<lparr>cpc := (cpc s)(i := wake_cpc (cpc s i))\<rparr>)"
  by (simp add: ra_inv_def cpc_ok_wake)

lemma step_inv: "ra_inv s \<Longrightarrow> ra_inv (step s a)"
  by (cases a)
    (simp_all add: task_step_inv consumer_call_inv consumer_step_inv stop_inv wake_task_inv
      wake_consumer_inv)

lemma run_inv: "ra_inv s \<Longrightarrow> ra_inv (run acts s)"
  unfolding run_def by (induction acts arbitrary: s) (simp_all add: step_inv)

lemma reachable_cache_empty: "read_blocks (run acts (ReadaheadThread_init f)) = []"
  using run_inv [OF ra_inv_init, of acts f] by (simp add: ra_inv_def)

lemma no_buffer_returned:
  "cpc (run acts (ReadaheadThread_init f)) i \<noteq> C_Returned (Suc n)"
proof
  assume a: "cpc (run acts (ReadaheadThread_init f)) i = C_Returned (Suc n)"
  from run_inv [OF ra_inv_init, of acts f]
  have "cpc_ok (bitmap (fsys (run acts (ReadaheadThread_init f)))) (cpc (run acts (ReadaheadThread_init f)) i)"
    by (simp add: ra_inv_def)
  with a show False by (simp add: NULL_def)
qed

section \<open>Cache hits and failed fetches\<close>

text \<open>
  C1 at \<open>hit_state\<close>, where block 1 is cached in buffer 9 and caller 0 enters
  \<^verbatim>\<open>getBlock(1)\<close>: the call erases the entry, but it does not return buffer 9. It records
  a miss and waits on \<^verbatim>\<open>read_block_cond\<close>; buffer 9 is neither returned nor put into the
  pool nor freed, and whatever the threads do afterwards, the call never returns. The same
  from the initial state: \<^verbatim>\<open>readBlock(1)\<close> of the occupied block 1 never returns, and with
  readahead no call of \<^verbatim>\<open>readBlock\<close> ever returns a buffer.
\<close>

theorem getBlock_hit_is_dropped:
  "map_find (read_blocks hit_state) 1 = Some 9
   \<and> cpc hit_state 0 = C_Get_Entry 1
   \<and> map_find (read_blocks (step hit_state (Consumer 0))) 1 = None
   \<and> cpc (step hit_state (Consumer 0)) 0 = C_Get (G_Blocked 1 NULL)
   \<and> readahead_miss (step hit_state (Consumer 0))
   \<and> buffers (fsys (step hit_state (Consumer 0))) = [7]
   \<and> freed (fsys (step hit_state (Consumer 0))) = []
   \<and> (\<forall>acts r. cpc (run acts hit_state) 0 \<noteq> C_Returned r)
   \<and> hasBlock (fsys (ReadaheadThread_init example_fs)) 1 = Inr True
   \<and> (\<forall>acts r. cpc (run acts (run [Consumer_readBlock 0 1] (ReadaheadThread_init example_fs))) 0
         \<noteq> C_Returned r)
   \<and> (\<forall>acts f i n. cpc (run acts (ReadaheadThread_init f)) i \<noteq> C_Returned (Suc n))"
proof -
  have "in_getBlock (cpc hit_state 0)"
    by (simp add: hit_state_def)
  then have "\<forall>acts r. cpc (run acts hit_state) 0 \<noteq> C_Returned r"
    by (blast dest: in_getBlock_run in_getBlock_not_returned)
  moreover have "map_find (read_blocks hit_state) 1 = Some 9" "cpc hit_state 0 = C_Get_Entry 1"
    by (simp_all add: hit_state_def map_find_def)
  moreover have "map_find (read_blocks (step hit_state (Consumer 0))) 1 = None"
    "cpc (step hit_state (Consumer 0)) 0 = C_Get (G_Blocked 1 NULL)"
    "readahead_miss (step hit_state (Consumer 0))"
    "buffers (fsys (step hit_state (Consumer 0))) = [7]"
    "freed (fsys (step hit_state (Consumer 0))) = []"
    by (simp_all add: hit_state_def ReadaheadThread_init_def example_fs_def holds_mutex_def
        consumer_step_def consumer_in_getBlock_def getBlock_enter_def clearUnusedReadahead_def
        getBlock_loop_eq readaheadFromInt_def notify_start_def map_find_def map_erase_def)
  moreover have "hasBlock (fsys (ReadaheadThread_init example_fs)) 1 = Inr True"
    by (simp add: ReadaheadThread_init_def example_fs_def hasBlock_def bit_test_def
        to_size_t_def signed_divide_int_def signed_modulo_int_def)
  moreover have "in_getBlock (cpc (run [Consumer_readBlock 0 1] (ReadaheadThread_init example_fs)) 0)"
    by (simp add: run_def ReadaheadThread_init_def example_fs_def consumer_call_def
        readBlock_def bit_test_def to_size_t_def signed_divide_int_def signed_modulo_int_def)
  then have "\<forall>acts r.
      cpc (run acts (run [Consumer_readBlock 0 1] (ReadaheadThread_init example_fs))) 0
        \<noteq> C_Returned r"
    by (blast dest: in_getBlock_run in_getBlock_not_returned)
  moreover have "\<forall>acts f i n. cpc (run acts (ReadaheadThread_init f)) i \<noteq> C_Returned (Suc n)"
    by (simp add: no_buffer_returned)
  ultimately show ?thesis by blast
qed

text \<open>
  C5 at \<open>failed_fetch_state\<close>, where caller 0 waits in \<^verbatim>\<open>getBlock(1)\<close> and the thread's
  \<^verbatim>\<open>fs.readBlock\<close> has come back with the null pointer and the error flag set: the
  thread stores the null pointer under block 1, clears \<open>readahead_miss\<close> and wakes the
  caller. The caller finds the entry, erases it, still has a null \<open>ret\<close>, requests the
  block again and waits again; it never returns and never looks at the error flag. From
  the initial state on the device that delivers nothing, the thread asked for block 1
  does not read the device at all: its \<^verbatim>\<open>fs.readBlock(1)\<close> enters \<^verbatim>\<open>getBlock(1)\<close> and waits
  beside the caller, \<open>readahead_miss\<close> stays set, and the caller never returns.
\<close>

theorem failed_fetch_is_requested_again:
  "cpc failed_fetch_state 0 = C_Get (G_Blocked 1 NULL)
   \<and> has_error (fsys failed_fetch_state)
   \<and> read_blocks (run [Task True] failed_fetch_state) = [(1, NULL)]
   \<and> \<not> readahead_miss (run [Task True] failed_fetch_state)
   \<and> cpc (run [Task True] failed_fetch_state) 0 = C_Get (G_Woken 1 NULL)
   \<and> cpc (run [Task True, Task True, Consumer 0] failed_fetch_state) 0 = C_Get (G_Blocked 1 NULL)
   \<and> readahead_miss (run [Task True, Task True, Consumer 0] failed_fetch_state)
   \<and> current_block (run [Task True, Task True, Consumer 0] failed_fetch_state) = 1
   \<and> read_blocks (run [Task True, Task True, Consumer 0] failed_fetch_state) = []
   \<and> (\<forall>acts r. cpc (run acts failed_fetch_state) 0 \<noteq> C_Returned r)
   \<and> tpc (run 
        [Task True, Consumer_readBlock 0 1, Consumer 0, Task True, Task True, Task True, Task True]
        (ReadaheadThread_init example_fs)) = T_Get (G_Blocked 1 NULL)
   \<and> cpc (run 
        [Task True, Consumer_readBlock 0 1, Consumer 0, Task True, Task True, Task True, Task True]
        (ReadaheadThread_init example_fs)) 0 = C_Get (G_Blocked 1 NULL)
   \<and> readahead_miss (run 
        [Task True, Consumer_readBlock 0 1, Consumer 0, Task True, Task True, Task True, Task True]
        (ReadaheadThread_init example_fs))
   \<and> nreads (dev (fsys (run 
        [Task True, Consumer_readBlock 0 1, Consumer 0, Task True, Task True, Task True, Task True]
        (ReadaheadThread_init example_fs)))) = 0
   \<and> (\<forall>acts r. cpc (run acts (run 
        [Task True, Consumer_readBlock 0 1, Consumer 0, Task True, Task True, Task True, Task True]
        (ReadaheadThread_init example_fs))) 0 \<noteq> C_Returned r)"
proof -
  have "in_getBlock (cpc failed_fetch_state 0)"
    by (simp add: failed_fetch_state_def)
  then have "\<forall>acts r. cpc (run acts failed_fetch_state) 0 \<noteq> C_Returned r"
    by (blast dest: in_getBlock_run in_getBlock_not_returned)
  moreover have "cpc failed_fetch_state 0 = C_Get (G_Blocked 1 NULL)"
    "has_error (fsys failed_fetch_state)"
    by (simp_all add: failed_fetch_state_def ReadaheadThread_init_def)
  moreover have "read_blocks (run [Task True] failed_fetch_state) = [(1, NULL)]"
    "\<not> readahead_miss (run [Task True] failed_fetch_state)"
    "cpc (run [Task True] failed_fetch_state) 0 = C_Get (G_Woken 1 NULL)"
    by (simp_all add: run_def failed_fetch_state_def ReadaheadThread_init_def task_step_def
        task_store_def notify_read_def wake_cpc_def task_loop_head_def task_bp_check_def
        task_after_bp_def task_idle_check_def readahead_num_blocks_def Let_def)
  moreover have "cpc (run [Task True, Task True, Consumer 0] failed_fetch_state) 0
      = C_Get (G_Blocked 1 NULL)"
    "readahead_miss (run [Task True, Task True, Consumer 0] failed_fetch_state)"
    "current_block (run [Task True, Task True, Consumer 0] failed_fetch_state) = 1"
    "read_blocks (run [Task True, Task True, Consumer 0] failed_fetch_state) = []"
    by (simp_all add: run_def failed_fetch_state_def ReadaheadThread_init_def task_step_def
        task_store_def notify_read_def wake_cpc_def task_loop_head_def task_bp_check_def
        task_after_bp_def task_idle_check_def readahead_num_blocks_def Let_def
        advance_body_def holds_mutex_def consumer_step_def consumer_in_getBlock_def
        getBlock_loop_eq readaheadFromInt_def notify_start_def map_erase_def)
  moreover have scen: "tpc (run 
        [Task True, Consumer_readBlock 0 1, Consumer 0, Task True, Task True, Task True, Task True]
        (ReadaheadThread_init example_fs)) = T_Get (G_Blocked 1 NULL)"
    "cpc (run 
        [Task True, Consumer_readBlock 0 1, Consumer 0, Task True, Task True, Task True, Task True]
        (ReadaheadThread_init example_fs)) 0 = C_Get (G_Blocked 1 NULL)"
    "readahead_miss (run 
        [Task True, Consumer_readBlock 0 1, Consumer 0, Task True, Task True, Task True, Task True]
        (ReadaheadThread_init example_fs))"
    "nreads (dev (fsys (run 
        [Task True, Consumer_readBlock 0 1, Consumer 0, Task True, Task True, Task True, Task True]
        (ReadaheadThread_init example_fs)))) = 0"
    by (simp_all add: run_def ReadaheadThread_init_def example_fs_def example_dev_def task_step_def
        task_loop_head_def task_after_bp_def task_idle_check_def readahead_num_blocks_def
        consumer_call_def readBlock_def bit_test_def to_size_t_def signed_divide_int_def
        signed_modulo_int_def holds_mutex_def consumer_step_def consumer_in_getBlock_def
        getBlock_enter_def clearUnusedReadahead_def getBlock_loop_eq readaheadFromInt_def
        notify_start_def map_erase_def advance_body_def task_in_getBlock_def)
  moreover from scen(2) have "in_getBlock (cpc (run 
        [Task True, Consumer_readBlock 0 1, Consumer 0, Task True, Task True, Task True, Task True]
        (ReadaheadThread_init example_fs)) 0)"
    by simp
  then have "\<forall>acts r. cpc (run acts (run 
        [Task True, Consumer_readBlock 0 1, Consumer 0, Task True, Task True, Task True, Task True]
        (ReadaheadThread_init example_fs))) 0 \<noteq> C_Returned r"
    by (blast dest: in_getBlock_run in_getBlock_not_returned)
  ultimately show ?thesis by blast
qed

section \<open>The do loop of the thread\<close>

lemma advance_loop_not_end: "advance_loop n False s \<noteq> Some (Inr s')"
  by (induction n arbitrary: s) (auto split: sum.splits)

lemma example_next_used_block:
  "next_used_block (fsys adv_state) 0 = Inr 1"
  "next_used_block (fsys adv_state) 1 = Inr (- 1)"
  "next_used_block (fsys adv_state) (- 1) = Inr 0"
  by (simp_all add: next_used_block.simps adv_state_def ReadaheadThread_init_def example_fs_def
      hasBlock_def bit_test_def to_size_t_def signed_divide_int_def signed_modulo_int_def)

lemma advance_loop_cycle:
  "cb = 0 \<or> cb = 1 \<or> cb = - 1 \<Longrightarrow> advance_loop n False (adv_state\<lparr>current_block := cb\<rparr>) = None"
proof (induction n arbitrary: cb)
  case 0
  then show ?case by simp
next
  case (Suc n)
  have f: "fsys (adv_state\<lparr>current_block := cb\<rparr>) = fsys adv_state" by simp
  from Suc.prems Suc.IH [of 1] Suc.IH [of "- 1"] Suc.IH [of 0] show ?case
    by (auto simp: advance_body_def example_next_used_block)
qed

lemma example_next_used_block_fs:
  "next_used_block (example_fs\<lparr>readahead_thread := True\<rparr>) 0 = Inr 1"
  "next_used_block (example_fs\<lparr>readahead_thread := True\<rparr>) 1 = Inr (- 1)"
  "next_used_block (example_fs\<lparr>readahead_thread := True\<rparr>) (- 1) = Inr 0"
  by (simp_all add: next_used_block.simps example_fs_def
      hasBlock_def bit_test_def to_size_t_def signed_divide_int_def signed_modulo_int_def)

lemma spin_step:
  assumes "fsys s = example_fs\<lparr>readahead_thread := True\<rparr>" "tpc s = T_Advance False"
    "current_block s = 0 \<or> current_block s = 1 \<or> current_block s = - 1"
  shows "fsys (task_step it s) = example_fs\<lparr>readahead_thread := True\<rparr>
    \<and> tpc (task_step it s) = T_Advance False
    \<and> (current_block (task_step it s) = 0 \<or> current_block (task_step it s) = 1
        \<or> current_block (task_step it s) = - 1)"
  using assms by (auto simp: task_step_def advance_body_def example_next_used_block_fs)

lemma spin_run:
  assumes "fsys s = example_fs\<lparr>readahead_thread := True\<rparr>" "tpc s = T_Advance False"
    "current_block s = 0 \<or> current_block s = 1 \<or> current_block s = - 1"
  shows "tpc (run (map Task its) s) = T_Advance False"
proof -
  have "fsys (run (map Task its) s) = example_fs\<lparr>readahead_thread := True\<rparr>
    \<and> tpc (run (map Task its) s) = T_Advance False
    \<and> (current_block (run (map Task its) s) = 0 \<or> current_block (run (map Task its) s) = 1
        \<or> current_block (run (map Task its) s) = - 1)"
    using assms unfolding run_def
  proof (induction its arbitrary: s)
    case Nil
    then show ?case by simp
  next
    case (Cons it its)
    from spin_step [OF Cons.prems, of it] show ?case
      by (simp add: Cons.IH)
  qed
  then show ?thesis by simp
qed

text \<open>
  C3 at \<open>adv_state\<close>, where \<open>current_block\<close> is 0, block 0 is cached, and block 1 is
  occupied and not cached, so that the claim asks for \<open>current_block = 1\<close> after the loop.
  If the unassigned iterator compares equal to \<^verbatim>\<open>end()\<close> the loop ends after one round
  with \<open>current_block\<close> still 0; if it compares unequal the loop never ends, here or in any
  other state: \<open>current_block\<close> runs through 1, -1, 0, 1 and so on. So it is from the
  initial state, once a caller has asked for block 1: the thread stays in the loop,
  holding the mutex, for any number of its steps.
\<close>

theorem advance_loop_skips_nothing:
  "current_block adv_state = 0
   \<and> map_find (read_blocks adv_state) 0 = Some 9
   \<and> hasBlock (fsys adv_state) 1 = Inr True \<and> map_find (read_blocks adv_state) 1 = None
   \<and> (\<forall>n. advance_loop (Suc n) True adv_state = Some (Inr adv_state))
   \<and> (\<forall>n. advance_loop n False adv_state = None)
   \<and> (\<forall>n s s'. advance_loop n False s \<noteq> Some (Inr s'))
   \<and> (\<forall>its. tpc (run (map Task its)
              (run [Task True, Consumer_readBlock 0 1, Consumer 0, Task False] (ReadaheadThread_init example_fs))) = T_Advance False)"
proof -
  have "current_block adv_state = 0" "map_find (read_blocks adv_state) 0 = Some 9"
    "map_find (read_blocks adv_state) 1 = None"
    by (simp_all add: adv_state_def map_find_def)
  moreover have "hasBlock (fsys adv_state) 1 = Inr True"
    by (simp add: adv_state_def ReadaheadThread_init_def example_fs_def hasBlock_def
        bit_test_def to_size_t_def signed_divide_int_def signed_modulo_int_def)
  moreover have "\<forall>n. advance_loop (Suc n) True adv_state = Some (Inr adv_state)"
    by (simp add: advance_body_def)
  moreover have "\<forall>n. advance_loop n False adv_state = None"
  proof
    fix n
    have "adv_state\<lparr>current_block := 0\<rparr> = adv_state" by (simp add: adv_state_def)
    with advance_loop_cycle [of 0 n] show "advance_loop n False adv_state = None" by simp
  qed
  moreover have "\<forall>n s s'. advance_loop n False s \<noteq> Some (Inr s')"
    by (simp add: advance_loop_not_end)
  moreover have "\<forall>its. tpc (run (map Task its)
      (run [Task True, Consumer_readBlock 0 1, Consumer 0, Task False] (ReadaheadThread_init example_fs))) = T_Advance False"
  proof
    fix its
    let ?s = "run [Task True, Consumer_readBlock 0 1, Consumer 0, Task False] (ReadaheadThread_init example_fs)"
    have "fsys ?s = example_fs\<lparr>readahead_thread := True\<rparr>" "tpc ?s = T_Advance False"
      "current_block ?s = 1"
      by (simp_all add: run_def ReadaheadThread_init_def example_fs_def example_dev_def task_step_def
        task_loop_head_def task_after_bp_def task_idle_check_def readahead_num_blocks_def
        consumer_call_def readBlock_def bit_test_def to_size_t_def signed_divide_int_def
        signed_modulo_int_def holds_mutex_def consumer_step_def consumer_in_getBlock_def
        getBlock_enter_def clearUnusedReadahead_def getBlock_loop_eq readaheadFromInt_def
        notify_start_def map_erase_def advance_body_def task_in_getBlock_def)
    then show "tpc (run (map Task its) ?s) = T_Advance False"
      by (intro spin_run) simp_all
  qed
  ultimately show ?thesis by blast
qed

section \<open>stop\<close>

lemma idle_stuck_step:
  assumes "current_block s = - 1" "tpc s = T_Idle_Blocked \<or> tpc s = T_Idle_Woken" "no_consumer a"
  shows "current_block (step s a) = - 1
    \<and> (tpc (step s a) = T_Idle_Blocked \<or> tpc (step s a) = T_Idle_Woken)"
proof (cases a)
  case (Task it)
  with assms show ?thesis by (auto simp: task_step_def task_idle_check_def)
next
  case Stop
  with assms show ?thesis by (auto simp: stop_def notify_start_def holds_mutex_def)
next
  case Wake_task
  with assms show ?thesis by (auto simp: wake_task_def notify_start_def)
next
  case (Wake_consumer i)
  with assms show ?thesis by auto
next
  case (Consumer_readBlock i b)
  with assms show ?thesis by simp
next
  case (Consumer i)
  with assms show ?thesis by simp
qed

lemma idle_stuck_run:
  assumes "list_all no_consumer acts" "current_block s = - 1"
    "tpc s = T_Idle_Blocked \<or> tpc s = T_Idle_Woken"
  shows "current_block (run acts s) = - 1
    \<and> (tpc (run acts s) = T_Idle_Blocked \<or> tpc (run acts s) = T_Idle_Woken)"
  using assms unfolding run_def
proof (induction acts arbitrary: s)
  case Nil
  then show ?case by simp
next
  case (Cons a acts)
  from Cons.prems have "no_consumer a" "list_all no_consumer acts" by simp_all
  from idle_stuck_step [OF Cons.prems(2,3) this(1)] Cons.IH [OF this(2)]
  show ?case by simp
qed

text \<open>
  C2 from the initial state: the thread's first section ends in the idle wait, since
  \<open>current_block\<close> is -1. \<open>stop\<close> sets \<open>do_stop\<close> and wakes the thread; the woken thread
  tests only \<^verbatim>\<open>current_block==-1\<close> (line 101) and waits again. As long as no caller of
  \<open>readBlock\<close> acts, no sequence of thread sections, wake-ups and further stops makes the
  thread leave its loop, so a join on it does not complete.
\<close>

theorem stop_leaves_idle_thread_waiting:
  assumes "list_all no_consumer acts"
  shows "tpc (run [Task it] (ReadaheadThread_init f)) = T_Idle_Blocked
    \<and> do_stop (run [Task it, Stop] (ReadaheadThread_init f))
    \<and> tpc (run [Task it, Stop] (ReadaheadThread_init f)) = T_Idle_Woken
    \<and> tpc (run [Task it, Stop, Task it'] (ReadaheadThread_init f)) = T_Idle_Blocked
    \<and> tpc (run acts (run [Task it, Stop] (ReadaheadThread_init f))) \<noteq> T_Exited"
proof -
  let ?s1 = "run [Task it, Stop] (ReadaheadThread_init f)"
  have a: "tpc (run [Task it] (ReadaheadThread_init f)) = T_Idle_Blocked"
    by (simp add: run_def ReadaheadThread_init_def task_step_def task_loop_head_def
        task_after_bp_def task_idle_check_def readahead_num_blocks_def)
  have b: "do_stop ?s1" "tpc ?s1 = T_Idle_Woken" "current_block ?s1 = - 1"
    by (simp_all add: run_def ReadaheadThread_init_def task_step_def task_loop_head_def
        task_after_bp_def task_idle_check_def readahead_num_blocks_def stop_def
        notify_start_def holds_mutex_def)
  have c: "tpc (run [Task it, Stop, Task it'] (ReadaheadThread_init f)) = T_Idle_Blocked"
    by (simp add: run_def ReadaheadThread_init_def task_step_def task_loop_head_def
        task_after_bp_def task_idle_check_def readahead_num_blocks_def stop_def
        notify_start_def holds_mutex_def)
  from idle_stuck_run [OF assms b(3)] b(2)
  have "tpc (run acts ?s1) \<noteq> T_Exited" by auto
  with a b c show ?thesis by simp
qed

theorem stop_leaves_idle_thread_waiting_witness:
  "list_all no_consumer [Task True, Wake_task, Task False, Stop, Task True]
   \<and> tpc (run [Task True, Stop, Task True] (ReadaheadThread_init example_fs)) = T_Idle_Blocked
   \<and> tpc (run [Task True, Wake_task, Task False, Stop, Task True]
        (run [Task True, Stop] (ReadaheadThread_init example_fs))) \<noteq> T_Exited"
proof -
  have h: "list_all no_consumer [Task True, Wake_task, Task False, Stop, Task True]" by simp
  from stop_leaves_idle_thread_waiting [OF h, of True example_fs True] h show ?thesis by simp
qed

section \<open>The cache bound\<close>





lemma read_blocks_notify_start [simp]: "read_blocks (notify_start s) = read_blocks s"
  by (simp add: notify_start_def)

lemma read_blocks_notify_read [simp]: "read_blocks (notify_read s) = read_blocks s"
  by (simp add: notify_read_def)



lemma read_blocks_task_in_getBlock [simp]:
  "read_blocks (task_in_getBlock b r x) = read_blocks (snd x)"
  by (cases x; cases "fst x") (simp_all add: task_in_getBlock_def)

lemma read_blocks_consumer_in_getBlock [simp]:
  "read_blocks (consumer_in_getBlock i b r x) = read_blocks (snd x)"
  by (cases x; cases "fst x") (simp_all add: consumer_in_getBlock_def)

lemma read_blocks_task_heads [simp]:
  "read_blocks (task_idle_check it s) = read_blocks s"
  "read_blocks (task_after_bp it s) = read_blocks s"
  "read_blocks (task_bp_check it s) = read_blocks s"
  "read_blocks (task_loop_head it s) = read_blocks s"
  by (simp_all add: task_idle_check_def task_after_bp_def task_bp_check_def task_loop_head_def)




lemma read_blocks_consumer_call [simp]: "read_blocks (consumer_call i b s) = read_blocks s"
  by (cases "cpc s i") (auto simp: consumer_call_def split: call.splits)













end
